theory Spec2Isabelle
  imports Main "HOL-Library.Word"
begin

section \<open>Memory model\<close>

text \<open>
  \<^verbatim>\<open>list.h\<close> generates, for an element type \<open>T\<close>, a node struct, a list struct and
  the functions working on them through pointers. Pointers and \<^verbatim>\<open>size_t\<close> are 64-bit words;
  the null pointer is the word 0. The element type \<open>T\<close> is the type variable \<open>'a\<close>.
\<close>

type_synonym ptr = "64 word"
type_synonym size_t = "64 word"

abbreviation NULL :: ptr where
  "NULL \<equiv> 0"

text \<open>\<^verbatim>\<open>struct LinkedList_T_Node { T value; struct LinkedList_T_Node *next; }\<close>\<close>

record 'a node =
  "value" :: 'a
  "next" :: ptr

text \<open>
  The memory is split by the type of the object stored: node structs, list structs
  (\<^verbatim>\<open>struct LinkedList_T { Node *head; }\<close>, of which only the \<open>head\<close> field is kept) and
  objects of type \<open>T\<close> that a \<^verbatim>\<open>T *\<close> may point to, such as the caller's result variable.
  An address outside the domain of a component holds no live object of that type.
\<close>

record 'a state =
  nodes :: "ptr \<rightharpoonup> 'a node"
  lists :: "ptr \<rightharpoonup> ptr"
  cells :: "ptr \<rightharpoonup> 'a"

text \<open>
  A call either returns, or it dereferences a null or dangling pointer, which is undefined
  behaviour in C and is the outcome \<open>Fault\<close> here. A loop that does not terminate has
  no outcome: the loops that follow a chain of unknown shape are partial functions into
  \<open>option\<close>, and \<open>None\<close> is divergence.
\<close>

datatype 'r outcome = Fault | Ret 'r

definition deref :: "(ptr \<rightharpoonup> 'b) \<Rightarrow> ptr \<Rightarrow> 'b outcome" where
  "deref h p = (if p = NULL then Fault else case h p of None \<Rightarrow> Fault | Some x \<Rightarrow> Ret x)"

text \<open>The anonymous enum returned by \<^verbatim>\<open>LinkedList_T_get\<close>.\<close>

definition GOT_OK :: int where "GOT_OK = 0"
definition GOT_OUT_OF_BOUNDS :: int where "GOT_OUT_OF_BOUNDS = 1"
definition GOT_EMPTY_LIST :: int where "GOT_EMPTY_LIST = 2"

section \<open>The generated functions\<close>

text \<open>
  \<^verbatim>\<open>malloc\<close> is the environment's: every function that allocates takes the pointer \<open>m\<close> that
  its call of \<^verbatim>\<open>malloc\<close> returned, \<open>NULL\<close> when the allocation failed. The theorems
  assume of \<open>m\<close> what the C standard promises (storage that is not live).
\<close>

definition LinkedList_new :: "ptr \<Rightarrow> 'a \<Rightarrow> 'a state \<Rightarrow> ptr \<times> 'a state" where
  "LinkedList_new m v s =
     (if m = NULL then (NULL, s)
      else (m, s\<lparr>nodes := (nodes s)(m \<mapsto> \<lparr>value = v, next = NULL\<rparr>)\<rparr>))"

definition LinkedList_make :: "ptr \<Rightarrow> 'a state \<Rightarrow> ptr \<times> 'a state" where
  "LinkedList_make m s =
     (if m = NULL then (NULL, s)
      else (m, s\<lparr>lists := (lists s)(m \<mapsto> NULL)\<rparr>))"

text \<open>\<^verbatim>\<open>while (current->next != NULL) current = current->next;\<close>\<close>

partial_function (option) append_loop :: "'a state \<Rightarrow> ptr \<Rightarrow> ptr outcome option" where
  "append_loop s current =
     (case deref (nodes s) current of
        Fault \<Rightarrow> Some Fault
      | Ret n \<Rightarrow> if next n \<noteq> NULL then append_loop s (next n) else Some (Ret current))"

definition LinkedList_append :: "ptr \<Rightarrow> 'a \<Rightarrow> ptr \<Rightarrow> 'a state \<Rightarrow> 'a state outcome option" where
  "LinkedList_append m v list s =
     (case deref (lists s) list of
        Fault \<Rightarrow> Some Fault
      | Ret head \<Rightarrow>
          if head = NULL then
            (let (p, s1) = LinkedList_new m v s
             in Some (Ret (s1\<lparr>lists := (lists s1)(list \<mapsto> p)\<rparr>)))
          else
            (case append_loop s head of
               None \<Rightarrow> None
             | Some Fault \<Rightarrow> Some Fault
             | Some (Ret current) \<Rightarrow>
                 (let (p, s1) = LinkedList_new m v s
                  in case deref (nodes s1) current of
                       Fault \<Rightarrow> Some Fault
                     | Ret n \<Rightarrow> Some (Ret (s1\<lparr>nodes := (nodes s1)(current \<mapsto> n\<lparr>next := p\<rparr>)\<rparr>)))))"

text \<open>
  The body of the \<^verbatim>\<open>if (current->value == value)\<close> branch of the delete loop: the store to
  \<^verbatim>\<open>previous->next\<close>, the test against \<^verbatim>\<open>list->head\<close> with its store, and
  \<^verbatim>\<open>free(current)\<close>. Every read is made in the memory the stores before it have left.
\<close>

definition delete_found :: "ptr \<Rightarrow> ptr \<Rightarrow> ptr \<Rightarrow> 'a state \<Rightarrow> (int \<times> 'a state) outcome" where
  "delete_found list previous current s =
     (case deref (nodes s) current of
        Fault \<Rightarrow> Fault
      | Ret n \<Rightarrow>
     (case deref (nodes s) previous of
        Fault \<Rightarrow> Fault
      | Ret pn \<Rightarrow>
          let s1 = s\<lparr>nodes := (nodes s)(previous \<mapsto> pn\<lparr>next := next n\<rparr>)\<rparr>
          in
     (case deref (lists s1) list of
        Fault \<Rightarrow> Fault
      | Ret head \<Rightarrow>
     (case (if current = head
            then (case deref (nodes s1) current of
                    Fault \<Rightarrow> Fault
                  | Ret n1 \<Rightarrow> Ret (s1\<lparr>lists := (lists s1)(list \<mapsto> next n1)\<rparr>))
            else Ret s1) of
        Fault \<Rightarrow> Fault
      | Ret s2 \<Rightarrow>
     (case deref (nodes s2) current of
        Fault \<Rightarrow> Fault
      | Ret _ \<Rightarrow> Ret (0, s2\<lparr>nodes := (nodes s2)(current := None)\<rparr>))))))"

partial_function (option) delete_loop ::
  "'a \<Rightarrow> ptr \<Rightarrow> ptr \<Rightarrow> ptr \<Rightarrow> 'a state \<Rightarrow> (int \<times> 'a state) outcome option" where
  "delete_loop v list previous current s =
     (if current \<noteq> NULL then
        (case deref (nodes s) current of
           Fault \<Rightarrow> Some Fault
         | Ret n \<Rightarrow>
             if value n = v then Some (delete_found list previous current s)
             else delete_loop v list current (next n) s)
      else Some (Ret (1, s)))"

definition LinkedList_delete :: "'a \<Rightarrow> ptr \<Rightarrow> 'a state \<Rightarrow> (int \<times> 'a state) outcome option" where
  "LinkedList_delete v list s =
     (case deref (lists s) list of
        Fault \<Rightarrow> Some Fault
      | Ret head \<Rightarrow> delete_loop v list head head s)"

partial_function (option) len_loop :: "'a state \<Rightarrow> ptr \<Rightarrow> size_t \<Rightarrow> size_t outcome option" where
  "len_loop s current len =
     (if current \<noteq> NULL then
        (case deref (nodes s) current of
           Fault \<Rightarrow> Some Fault
         | Ret n \<Rightarrow> len_loop s (next n) (len + 1))
      else Some (Ret len))"

definition LinkedList_len :: "ptr \<Rightarrow> 'a state \<Rightarrow> size_t outcome option" where
  "LinkedList_len list s =
     (case deref (lists s) list of
        Fault \<Rightarrow> Some Fault
      | Ret head \<Rightarrow> len_loop s head 0)"

text \<open>
  \<^verbatim>\<open>while (i < index) { current = current->next; ++i; }\<close> runs at most \<open>index\<close> times
  whatever the memory holds, so it is a total function.
\<close>

function get_loop :: "'a state \<Rightarrow> size_t \<Rightarrow> size_t \<Rightarrow> ptr \<Rightarrow> ptr outcome" where
  "get_loop s i index current =
     (if i < index then
        (case deref (nodes s) current of
           Fault \<Rightarrow> Fault
         | Ret n \<Rightarrow> get_loop s (i + 1) index (next n))
      else Ret current)"
  by pat_completeness auto

termination get_loop
proof (relation "measure (\<lambda>(s, i, index, current). unat index - unat i)")
  show "wf (measure (\<lambda>(s :: 'a state, i :: size_t, index :: size_t, current :: ptr).
          unat index - unat i))"
    by simp
next
  fix s :: "'a state" and i index :: size_t and current :: ptr and x2 :: "'a node"
  assume less: "i < index"
  have "unat i < unat index"
    using less by (simp add: word_less_nat_alt)
  moreover have "unat index < 2 ^ LENGTH(64)"
    by (rule unsigned_less)
  ultimately have "unat i + unat (1 :: size_t) < 2 ^ LENGTH(64)"
    by simp
  then have "unat (i + 1) = unat i + unat (1 :: size_t)"
    by (simp only: unat_add_lem)
  with \<open>unat i < unat index\<close>
  show "((s, i + 1, index, next x2), (s, i, index, current))
          \<in> measure (\<lambda>(s, i, index, current). unat index - unat i)"
    by simp
qed

definition LinkedList_get ::
  "size_t \<Rightarrow> ptr \<Rightarrow> ptr \<Rightarrow> 'a state \<Rightarrow> (int \<times> 'a state) outcome option" where
  "LinkedList_get index list result s =
     (case deref (lists s) list of
        Fault \<Rightarrow> Some Fault
      | Ret head \<Rightarrow>
     (case LinkedList_len list s of
        None \<Rightarrow> None
      | Some Fault \<Rightarrow> Some Fault
      | Some (Ret len) \<Rightarrow>
          if len = 0 then Some (Ret (GOT_EMPTY_LIST, s))
          else if len \<le> index then Some (Ret (GOT_OUT_OF_BOUNDS, s))
          else
     (case get_loop s 0 index head of
        Fault \<Rightarrow> Some Fault
      | Ret current \<Rightarrow>
     (case deref (nodes s) current of
        Fault \<Rightarrow> Some Fault
      | Ret n \<Rightarrow>
     (case deref (cells s) result of
        Fault \<Rightarrow> Some Fault
      | Ret _ \<Rightarrow> Some (Ret (GOT_OK, s\<lparr>cells := (cells s)(result \<mapsto> value n)\<rparr>)))))))"

text \<open>
  \<^verbatim>\<open>while (current != NULL) { next = current->next; free(current); current = next; }\<close>
  and then \<^verbatim>\<open>free(list)\<close>. Freeing storage that is not live is a fault.
\<close>

partial_function (option) free_loop :: "ptr \<Rightarrow> 'a state \<Rightarrow> 'a state outcome option" where
  "free_loop current s =
     (if current \<noteq> NULL then
        (case deref (nodes s) current of
           Fault \<Rightarrow> Some Fault
         | Ret n \<Rightarrow> free_loop (next n) (s\<lparr>nodes := (nodes s)(current := None)\<rparr>))
      else Some (Ret s))"

definition LinkedList_free :: "ptr \<Rightarrow> 'a state \<Rightarrow> 'a state outcome option" where
  "LinkedList_free list s =
     (case deref (lists s) list of
        Fault \<Rightarrow> Some Fault
      | Ret head \<Rightarrow>
     (case free_loop head s of
        None \<Rightarrow> None
      | Some Fault \<Rightarrow> Some Fault
      | Some (Ret s1) \<Rightarrow>
     (case deref (lists s1) list of
        Fault \<Rightarrow> Some Fault
      | Ret _ \<Rightarrow> Some (Ret (s1\<lparr>lists := (lists s1)(list := None)\<rparr>)))))"

section \<open>The abstraction of a list in memory\<close>

text \<open>
  \<open>chain h p xs\<close>: following \<open>next\<close> from \<open>p\<close> in the node memory \<open>h\<close> visits
  exactly the live nodes at the addresses \<open>map fst xs\<close>, holding the values
  \<open>map snd xs\<close>, in this order, and then reaches \<open>NULL\<close>.
\<close>

primrec chain :: "(ptr \<rightharpoonup> 'a node) \<Rightarrow> ptr \<Rightarrow> (ptr \<times> 'a) list \<Rightarrow> bool" where
  "chain h p [] = (p = NULL)"
| "chain h p (x # xs) =
     (p = fst x \<and> p \<noteq> NULL \<and>
      (case h p of None \<Rightarrow> False | Some n \<Rightarrow> value n = snd x \<and> chain h (next n) xs))"

text \<open>\<open>list_rep s l xs\<close>: \<open>l\<close> points to a live list struct whose \<open>head\<close> starts the chain \<open>xs\<close>.\<close>

definition list_rep :: "'a state \<Rightarrow> ptr \<Rightarrow> (ptr \<times> 'a) list \<Rightarrow> bool" where
  "list_rep s l xs =
     (l \<noteq> NULL \<and> (case lists s l of None \<Rightarrow> False | Some head \<Rightarrow> chain (nodes s) head xs))"

text \<open>
  A caller appending the values \<open>map snd mvs\<close> in order, where \<open>map fst mvs\<close> are the
  pointers the successive calls of \<^verbatim>\<open>malloc\<close> return.
\<close>

fun appends :: "(ptr \<times> 'a) list \<Rightarrow> ptr \<Rightarrow> 'a state \<Rightarrow> 'a state outcome option" where
  "appends [] list s = Some (Ret s)"
| "appends (mv # mvs) list s =
     (case LinkedList_append (fst mv) (snd mv) list s of
        None \<Rightarrow> None
      | Some Fault \<Rightarrow> Some Fault
      | Some (Ret s1) \<Rightarrow> appends mvs list s1)"

text \<open>
  \<^verbatim>\<open>main\<close> of \<^verbatim>\<open>main.c\<close>, for \<open>T = int\<close>: \<open>m1\<close> and \<open>m2\<close> are what the two calls of
  \<^verbatim>\<open>malloc\<close> return, \<open>fst_elem\<close> is the address of the local variable. The result is
  the pair of numbers printed.
\<close>

type_synonym c_int = "32 word"

definition main :: "ptr \<Rightarrow> ptr \<Rightarrow> ptr \<Rightarrow> c_int state \<Rightarrow> (int \<times> int) outcome option" where
  "main m1 m2 fst_elem s =
     (let (ll, s1) = LinkedList_make m1 s
      in
     (case LinkedList_append m2 12 ll s1 of
        None \<Rightarrow> None
      | Some Fault \<Rightarrow> Some Fault
      | Some (Ret s2) \<Rightarrow>
     (case LinkedList_get 0 ll fst_elem s2 of
        None \<Rightarrow> None
      | Some Fault \<Rightarrow> Some Fault
      | Some (Ret (status, s3)) \<Rightarrow>
     (case deref (cells s3) fst_elem of
        Fault \<Rightarrow> Some Fault
      | Ret v \<Rightarrow>
     (case LinkedList_free ll s3 of
        None \<Rightarrow> None
      | Some Fault \<Rightarrow> Some Fault
      | Some (Ret s4) \<Rightarrow> Some (Ret (status, sint v)))))))"

text \<open>
  What the C standard promises of a sequence of successful calls of \<^verbatim>\<open>malloc\<close> with no
  \<^verbatim>\<open>free\<close> in between: each pointer is non-null, is not the address of a live node, and
  differs from the pointers returned before.
\<close>

definition mallocs_ok :: "'a state \<Rightarrow> ptr list \<Rightarrow> bool" where
  "mallocs_ok s ms = (distinct ms \<and> list_all (\<lambda>m. m \<noteq> NULL \<and> nodes s m = None) ms)"

text \<open>
  The structural invariant of a list: its chain ends at \<open>NULL\<close> after the nodes \<open>xs\<close>, no
  node occurs twice in it, and the length that \<^verbatim>\<open>LinkedList_T_len\<close> reports is the number
  of these nodes (without wrapping around in \<^verbatim>\<open>size_t\<close>).
\<close>

definition wf_list :: "'a state \<Rightarrow> ptr \<Rightarrow> (ptr \<times> 'a) list \<Rightarrow> bool" where
  "wf_list s l xs =
     (list_rep s l xs \<and> distinct (map fst xs) \<and>
      LinkedList_len l s = Some (Ret (of_nat (length xs))) \<and> length xs < 2 ^ 64)"

subsection \<open>Example memories\<close>

text \<open>
  A memory with no list, one with an empty list at address 100, one with a list of a single
  node, and two with a list of three \<^verbatim>\<open>int\<close> nodes at the addresses 1, 2 and 3. Address 200 is a caller's \<^verbatim>\<open>int\<close> variable.
\<close>

definition ex_blank :: "c_int state" where
  "ex_blank = \<lparr>nodes = Map.empty, lists = Map.empty, cells = [200 \<mapsto> 77]\<rparr>"

definition ex_empty :: "c_int state" where
  "ex_empty = \<lparr>nodes = Map.empty, lists = [100 \<mapsto> NULL], cells = [200 \<mapsto> 77]\<rparr>"

definition ex_abc :: "c_int state" where
  "ex_abc =
     \<lparr>nodes = [1 \<mapsto> \<lparr>value = 10, next = 2\<rparr>, 2 \<mapsto> \<lparr>value = 20, next = 3\<rparr>,
               3 \<mapsto> \<lparr>value = 30, next = NULL\<rparr>],
      lists = [100 \<mapsto> 1], cells = [200 \<mapsto> 77]\<rparr>"

definition ex_one :: "c_int state" where
  "ex_one =
     \<lparr>nodes = [1 \<mapsto> \<lparr>value = 12, next = NULL\<rparr>], lists = [100 \<mapsto> 1], cells = [200 \<mapsto> 77]\<rparr>"

definition ex_aba :: "c_int state" where
  "ex_aba =
     \<lparr>nodes = [1 \<mapsto> \<lparr>value = 10, next = 2\<rparr>, 2 \<mapsto> \<lparr>value = 20, next = 3\<rparr>,
               3 \<mapsto> \<lparr>value = 10, next = NULL\<rparr>],
      lists = [100 \<mapsto> 1], cells = [200 \<mapsto> 77]\<rparr>"

section \<open>Facts about chains\<close>

lemma deref_Ret_iff: "deref h p = Ret x \<longleftrightarrow> p \<noteq> NULL \<and> h p = Some x"
  by (simp add: deref_def split: option.splits)

lemma deref_live: "p \<noteq> NULL \<Longrightarrow> h p = Some x \<Longrightarrow> deref h p = Ret x"
  by (simp add: deref_def)

lemma chain_NULL: "chain h NULL xs \<longleftrightarrow> xs = []"
  by (cases xs) auto

lemma chain_Cons_iff:
  "chain h p (x # xs) \<longleftrightarrow>
     p = fst x \<and> p \<noteq> NULL \<and> (\<exists>n. h p = Some n \<and> value n = snd x \<and> chain h (next n) xs)"
  by (auto split: option.splits)

declare chain.simps(2) [simp del]
declare chain_Cons_iff [simp]

lemma chain_functional: "chain h p xs \<Longrightarrow> chain h p ys \<Longrightarrow> xs = ys"
proof (induction xs arbitrary: p ys)
  case Nil
  then show ?case by (simp add: chain_NULL)
next
  case (Cons x xs)
  from Cons.prems obtain y ys' where ys: "ys = y # ys'"
    by (cases ys) auto
  with Cons.prems obtain n where "h p = Some n" "chain h (next n) xs" "chain h (next n) ys'" "x = y"
    by (auto simp: prod_eq_iff)
  with Cons.IH ys show ?case by simp
qed

lemma chain_length_functional: "chain h p xs \<Longrightarrow> chain h p ys \<Longrightarrow> length xs = length ys"
  by (drule (1) chain_functional) simp

lemma chain_suffix: "chain h p (xs @ ys) \<Longrightarrow> ys \<noteq> [] \<Longrightarrow> chain h (fst (hd ys)) ys"
proof (induction xs arbitrary: p)
  case Nil
  then show ?case by (cases ys) auto
next
  case (Cons x xs)
  then show ?case by auto
qed

lemma chain_head_notin_tail:
  assumes "chain h p (x # xs)" shows "fst x \<notin> fst ` set xs"
proof
  assume "fst x \<in> fst ` set xs"
  then obtain v where "(fst x, v) \<in> set xs" by force
  then obtain us vs where xs: "xs = us @ (fst x, v) # vs"
    by (auto simp: in_set_conv_decomp)
  have "chain h p ((x # us) @ (fst x, v) # vs)"
    using assms unfolding xs by (simp only: append_Cons)
  then have "chain h (fst x) ((fst x, v) # vs)"
    by (drule_tac chain_suffix) simp_all
  moreover have "chain h (fst x) (x # xs)"
    using assms by auto
  ultimately have "length ((fst x, v) # vs) = length (x # xs)"
    by (rule chain_length_functional)
  with xs show False by simp
qed

lemma chain_distinct: "chain h p xs \<Longrightarrow> distinct (map fst xs)"
proof (induction xs arbitrary: p)
  case Nil
  then show ?case by simp
next
  case (Cons x xs)
  from Cons.prems have "fst x \<notin> fst ` set xs"
    by (rule chain_head_notin_tail)
  moreover from Cons.prems obtain q where "chain h q xs"
    by auto
  ultimately show ?case using Cons.IH by simp
qed

lemma chain_not_NULL: "chain h p xs \<Longrightarrow> NULL \<notin> fst ` set xs"
proof (induction xs arbitrary: p)
  case Nil
  then show ?case by simp
next
  case (Cons x xs)
  then show ?case by auto
qed

lemma chain_live: "chain h p xs \<Longrightarrow> (a, v) \<in> set xs \<Longrightarrow> \<exists>n. h a = Some n \<and> value n = v"
proof (induction xs arbitrary: p)
  case Nil
  then show ?case by simp
next
  case (Cons x xs)
  then show ?case by auto
qed

lemma chain_upd_other: "a \<notin> fst ` set xs \<Longrightarrow> chain (h(a := y)) p xs = chain h p xs"
proof (induction xs arbitrary: p)
  case Nil
  then show ?case by simp
next
  case (Cons x xs)
  then show ?case by auto
qed

lemma chain_length_bound:
  assumes "chain h p xs" shows "length xs < 2 ^ 64"
proof -
  have "length xs = card (set (map fst xs))"
    using chain_distinct [OF assms] by (simp add: distinct_card del: set_map)
  also have "\<dots> \<le> card (UNIV - {NULL})"
    using chain_not_NULL [OF assms] by (intro card_mono) auto
  also have "\<dots> = 2 ^ 64 - 1"
    by (simp add: card_Diff_singleton card_word)
  finally show ?thesis by simp
qed

section \<open>The length loop\<close>

lemma len_loop_chain:
  "chain (nodes s) p xs \<Longrightarrow> len_loop s p k = Some (Ret (k + of_nat (length xs)))"
proof (induction xs arbitrary: p k)
  case Nil
  then show ?case by (simp add: len_loop.simps)
next
  case (Cons x xs)
  from Cons.prems obtain n where n: "p \<noteq> NULL" "nodes s p = Some n" "chain (nodes s) (next n) xs"
    by auto
  have "len_loop s p k = len_loop s (next n) (k + 1)"
    using n by (subst len_loop.simps) (simp add: deref_live)
  also have "\<dots> = Some (Ret (k + 1 + of_nat (length xs)))"
    using n(3) by (rule Cons.IH)
  finally show ?case by (simp add: add.assoc)
qed

lemma LinkedList_len_rep:
  assumes "list_rep s l xs"
  shows "LinkedList_len l s = Some (Ret (of_nat (length xs)))"
proof -
  from assms obtain head where "l \<noteq> NULL" "lists s l = Some head" "chain (nodes s) head xs"
    by (auto simp: list_rep_def split: option.splits)
  then show ?thesis
    by (simp add: LinkedList_len_def deref_live len_loop_chain)
qed

lemma unat_of_nat_length:
  assumes "chain h p xs" shows "unat (of_nat (length xs) :: size_t) = length xs"
  using chain_length_bound [OF assms] by (simp add: unat_of_nat)

section \<open>Appending\<close>

lemma append_loop_chain:
  "chain (nodes s) p xs \<Longrightarrow> xs \<noteq> [] \<Longrightarrow> append_loop s p = Some (Ret (fst (last xs)))"
proof (induction xs arbitrary: p)
  case Nil
  then show ?case by simp
next
  case (Cons x xs)
  from Cons.prems obtain n where n: "p = fst x" "p \<noteq> NULL" "nodes s p = Some n" "chain (nodes s) (next n) xs"
    by auto
  show ?case
  proof (cases "xs = []")
    case True
    with n have "next n = NULL" by simp
    with n True show ?thesis
      by (subst append_loop.simps) (simp add: deref_live)
  next
    case False
    with n have "next n \<noteq> NULL" by (auto simp: chain_NULL)
    with n have "append_loop s p = append_loop s (next n)"
      by (subst append_loop.simps) (simp add: deref_live)
    also have "\<dots> = Some (Ret (fst (last xs)))"
      using n(4) False by (rule Cons.IH)
    finally show ?thesis using False by simp
  qed
qed

lemma chain_last_node:
  "chain h p xs \<Longrightarrow> xs \<noteq> [] \<Longrightarrow> \<exists>n. h (fst (last xs)) = Some n \<and> next n = NULL \<and> value n = snd (last xs)"
proof (induction xs arbitrary: p)
  case Nil
  then show ?case by simp
next
  case (Cons x xs)
  then show ?case by (cases xs) auto
qed

lemma chain_snoc:
  assumes "chain h p xs" and "xs \<noteq> []" and "m \<noteq> NULL" and "h m = None"
    and "h (fst (last xs)) = Some t"
  shows "chain (h(m \<mapsto> \<lparr>value = v, next = NULL\<rparr>, fst (last xs) \<mapsto> t\<lparr>next := m\<rparr>)) p (xs @ [(m, v)])"
  using assms
proof (induction xs arbitrary: p)
  case Nil
  then show ?case by simp
next
  case (Cons x xs)
  from Cons.prems obtain n where n: "p = fst x" "p \<noteq> NULL" "h p = Some n" "value n = snd x" "chain h (next n) xs"
    by auto
  have pm: "p \<noteq> m" using n Cons.prems by auto
  show ?case
  proof (cases "xs = []")
    case True
    with n Cons.prems have "t = n" "next n = NULL" by auto
    with n True pm Cons.prems show ?thesis by auto
  next
    case False
    have "fst x \<notin> fst ` set xs"
      using Cons.prems(1) by (rule chain_head_notin_tail)
    then have pl: "p \<noteq> fst (last xs)"
      using n False by (metis image_eqI last_in_set)
    let ?h' = "h(m \<mapsto> \<lparr>value = v, next = NULL\<rparr>, fst (last xs) \<mapsto> t\<lparr>next := m\<rparr>)"
    have tl: "chain ?h' (next n) (xs @ [(m, v)])"
      using n(5) False Cons.prems(3,4,5) by (intro Cons.IH) simp_all
    have hp: "?h' p = Some n"
      using pm pl n(3) by simp
    have step: "chain ?h' p (x # (xs @ [(m, v)]))"
      unfolding chain_Cons_iff using n(1,2,4) hp tl by blast
    have eq: "last (x # xs) = last xs"
      using False by simp
    show ?thesis
      unfolding eq append_Cons by (rule step)
  qed
qed

lemma list_repE:
  assumes "list_rep s l xs"
  obtains head where "l \<noteq> NULL" "lists s l = Some head" "chain (nodes s) head xs"
  using assms by (auto simp: list_rep_def split: option.splits)

lemma list_repI:
  "l \<noteq> NULL \<Longrightarrow> lists s l = Some head \<Longrightarrow> chain (nodes s) head xs \<Longrightarrow> list_rep s l xs"
  by (simp add: list_rep_def)

lemma LinkedList_append_fail:
  assumes "list_rep s l xs"
  shows "LinkedList_append NULL v l s = Some (Ret s)"
proof -
  from assms obtain head where h: "l \<noteq> NULL" "lists s l = Some head" "chain (nodes s) head xs"
    by (rule list_repE)
  show ?thesis
  proof (cases "xs = []")
    case True
    with h have "head = NULL" by simp
    moreover have "(lists s)(l \<mapsto> NULL) = lists s"
      using h \<open>head = NULL\<close> by (simp add: map_upd_triv)
    ultimately show ?thesis
      using h by (simp add: LinkedList_append_def LinkedList_new_def deref_live)
  next
    case False
    with h have nn: "head \<noteq> NULL" by (auto simp: chain_NULL)
    from chain_last_node [OF h(3) False] obtain n
      where n: "nodes s (fst (last xs)) = Some n" "next n = NULL" by blast
    have live: "fst (last xs) \<noteq> NULL"
      using chain_not_NULL [OF h(3)] False by (metis image_eqI last_in_set)
    have "n\<lparr>next := NULL\<rparr> = n" using n(2) by simp
    then have "(nodes s)(fst (last xs) \<mapsto> n\<lparr>next := NULL\<rparr>) = nodes s"
      using n(1) by (simp add: map_upd_triv)
    then show ?thesis
      using h nn n live append_loop_chain [OF h(3) False]
      by (simp add: LinkedList_append_def LinkedList_new_def deref_live)
  qed
qed

lemma LinkedList_append_ok:
  assumes "list_rep s l xs" and "m \<noteq> NULL" and "nodes s m = None"
  shows "\<exists>s'. LinkedList_append m v l s = Some (Ret s') \<and> list_rep s' l (xs @ [(m, v)]) \<and>
           dom (nodes s') = insert m (dom (nodes s)) \<and> cells s' = cells s \<and>
           dom (lists s') = dom (lists s)"
proof -
  from assms obtain head where h: "l \<noteq> NULL" "lists s l = Some head" "chain (nodes s) head xs"
    by (auto elim: list_repE)
  show ?thesis
  proof (cases "xs = []")
    case True
    with h have "head = NULL" by simp
    then have "LinkedList_append m v l s =
        Some (Ret (s\<lparr>nodes := (nodes s)(m \<mapsto> \<lparr>value = v, next = NULL\<rparr>), lists := (lists s)(l \<mapsto> m)\<rparr>))"
      using h assms(2) by (simp add: LinkedList_append_def LinkedList_new_def deref_live)
    moreover have "list_rep (s\<lparr>nodes := (nodes s)(m \<mapsto> \<lparr>value = v, next = NULL\<rparr>), lists := (lists s)(l \<mapsto> m)\<rparr>) l (xs @ [(m, v)])"
      using True h(1) assms(2) by (simp add: list_rep_def)
    ultimately show ?thesis using h(2) by auto
  next
    case False
    with h have nn: "head \<noteq> NULL" by (auto simp: chain_NULL)
    let ?t = "fst (last xs)"
    from chain_last_node [OF h(3) False] obtain n
      where n: "nodes s ?t = Some n" "next n = NULL" by blast
    have live: "?t \<noteq> NULL"
      using chain_not_NULL [OF h(3)] False by (metis image_eqI last_in_set)
    have tm: "?t \<noteq> m" using n assms(3) by auto
    let ?s' = "s\<lparr>nodes := (nodes s)(m \<mapsto> \<lparr>value = v, next = NULL\<rparr>, ?t \<mapsto> n\<lparr>next := m\<rparr>)\<rparr>"
    have "LinkedList_append m v l s = Some (Ret ?s')"
      using h nn n live tm assms(2) append_loop_chain [OF h(3) False]
      by (simp add: LinkedList_append_def LinkedList_new_def deref_live)
    moreover have "chain (nodes ?s') head (xs @ [(m, v)])"
      using chain_snoc [OF h(3) False assms(2,3) n(1), of v] by simp
    then have "list_rep ?s' l (xs @ [(m, v)])"
      using h by (simp add: list_rep_def)
    moreover have "dom (nodes ?s') = insert m (dom (nodes s))"
      using n(1) by auto
    ultimately show ?thesis by simp
  qed
qed

section \<open>Deleting\<close>

lemma delete_loop_miss:
  "chain (nodes s) current xs \<Longrightarrow> v \<notin> snd ` set xs \<Longrightarrow>
     delete_loop v l previous current s = Some (Ret (1, s))"
proof (induction xs arbitrary: previous current)
  case Nil
  then show ?case by (subst delete_loop.simps) simp
next
  case (Cons x xs)
  from Cons.prems obtain n where n: "current \<noteq> NULL" "nodes s current = Some n"
      "value n = snd x" "chain (nodes s) (next n) xs"
    by auto
  from Cons.prems have "value n \<noteq> v" "v \<notin> snd ` set xs"
    using n(3) by auto
  then have "delete_loop v l previous current s = delete_loop v l current (next n) s"
    using n by (subst delete_loop.simps) (simp add: deref_live)
  also have "\<dots> = Some (Ret (1, s))"
    using n(4) \<open>v \<notin> snd ` set xs\<close> by (rule Cons.IH)
  finally show ?case .
qed

lemma delete_loop_hit:
  "chain (nodes s) current (pre @ (c, v) # post) \<Longrightarrow> v \<notin> snd ` set pre \<Longrightarrow>
     delete_loop v l previous current s =
       Some (delete_found l (if pre = [] then previous else fst (last pre)) c s)"
proof (induction pre arbitrary: previous current)
  case Nil
  then obtain n where "current = c" "c \<noteq> NULL" "nodes s c = Some n" "value n = v"
    by auto
  then show ?case
    by (subst delete_loop.simps) (simp add: deref_live)
next
  case (Cons x pre)
  from Cons.prems obtain n where n: "current = fst x" "current \<noteq> NULL" "nodes s current = Some n"
      "value n = snd x" "chain (nodes s) (next n) (pre @ (c, v) # post)"
    by auto
  from Cons.prems have "value n \<noteq> v" "v \<notin> snd ` set pre"
    using n(4) by auto
  then have "delete_loop v l previous current s = delete_loop v l current (next n) s"
    using n by (subst delete_loop.simps) (simp add: deref_live)
  also have "\<dots> = Some (delete_found l (if pre = [] then current else fst (last pre)) c s)"
    using n(5) \<open>v \<notin> snd ` set pre\<close> by (rule Cons.IH)
  also have "(if pre = [] then current else fst (last pre)) = fst (last (x # pre))"
    using n(1) by simp
  finally show ?case by simp
qed

lemma chain_ConsI:
  "p = fst x \<Longrightarrow> p \<noteq> NULL \<Longrightarrow> h p = Some n \<Longrightarrow> value n = snd x \<Longrightarrow> chain h (next n) xs
     \<Longrightarrow> chain h p (x # xs)"
  by simp

text \<open>Unlinking the node after a non-empty prefix.\<close>

lemma chain_unlink:
  assumes "chain h p (pre @ (c, v) # post)" and "pre \<noteq> []"
    and "h (fst (last pre)) = Some pn" and "h c = Some n"
  shows "chain (h(fst (last pre) \<mapsto> pn\<lparr>next := next n\<rparr>, c := None)) p (pre @ post)"
  using assms
proof (induction pre arbitrary: p)
  case Nil
  then show ?case by simp
next
  case (Cons x pre)
  from Cons.prems(1) obtain m where m: "p = fst x" "p \<noteq> NULL" "h p = Some m" "value m = snd x"
      "chain h (next m) (pre @ (c, v) # post)"
    by auto
  have notin: "fst x \<notin> fst ` set (pre @ (c, v) # post)"
    using Cons.prems(1) by (intro chain_head_notin_tail) simp
  then have pc: "p \<noteq> c" using m(1) by auto
  show ?case
  proof (cases "pre = []")
    case True
    with m(5) Cons.prems(4) have nx: "next m = c" "chain h (next n) post" by auto
    from True Cons.prems(3) m have "pn = m" by simp
    let ?h' = "h(p \<mapsto> m\<lparr>next := next n\<rparr>, c := None)"
    have "c \<notin> fst ` set post"
      using m(5) True by (intro chain_head_notin_tail [where x = "(c, v)", simplified]) simp
    moreover have "p \<notin> fst ` set post"
      using notin m(1) by auto
    ultimately have "chain ?h' (next n) post"
      using nx(2) by (simp add: chain_upd_other)
    then have tl: "chain ?h' (next (m\<lparr>next := next n\<rparr>)) post"
      by simp
    have hp: "?h' p = Some (m\<lparr>next := next n\<rparr>)"
      using pc by simp
    have vl: "value (m\<lparr>next := next n\<rparr>) = snd x"
      using m(4) by simp
    have step: "chain ?h' p (x # post)"
      by (rule chain_ConsI [OF m(1,2) hp vl tl])
    have e1: "(x # pre) @ post = x # post"
      using True by simp
    have e2: "fst (last (x # pre)) = p"
      using True m(1) by simp
    show ?thesis
      unfolding e1 e2 \<open>pn = m\<close> by (rule step)
  next
    case False
    let ?h' = "h(fst (last pre) \<mapsto> pn\<lparr>next := next n\<rparr>, c := None)"
    have pl: "p \<noteq> fst (last pre)"
      using notin m(1) False by (metis UnCI image_eqI last_in_set set_append image_Un)
    have tl: "chain ?h' (next m) (pre @ post)"
      using m(5) False Cons.prems(3,4) by (intro Cons.IH) simp_all
    have "?h' p = Some m"
      using pc pl m(3) by simp
    with tl have step: "chain ?h' p (x # (pre @ post))"
      unfolding chain_Cons_iff using m(1,2,4) by blast
    have eq: "last (x # pre) = last pre"
      using False by simp
    show ?thesis
      unfolding eq append_Cons by (rule step)
  qed
qed

lemma chain_mid_live:
  assumes "chain h p (pre @ (c, v) # post)"
  shows "c \<noteq> NULL" and "\<exists>n. h c = Some n \<and> value n = v \<and> chain h (next n) post"
    and "c \<notin> fst ` set pre" and "c \<notin> fst ` set post"
proof -
  have "chain h (fst (hd ((c, v) # post))) ((c, v) # post)"
    using assms by (rule chain_suffix) simp
  then show "c \<noteq> NULL" and "\<exists>n. h c = Some n \<and> value n = v \<and> chain h (next n) post"
    by auto
  have "distinct (map fst (pre @ (c, v) # post))"
    using assms by (rule chain_distinct)
  then show "c \<notin> fst ` set pre" and "c \<notin> fst ` set post"
    by auto
qed

lemma chain_pre_last_live:
  assumes "chain h p (pre @ (c, v) # post)" and "pre \<noteq> []"
  shows "fst (last pre) \<noteq> NULL" and "\<exists>pn. h (fst (last pre)) = Some pn \<and> next pn = c"
    and "fst (last pre) \<noteq> c" and "p \<noteq> c"
proof -
  have "pre @ (c, v) # post = butlast pre @ last pre # (c, v) # post"
    using append_butlast_last_id [OF assms(2)] by (metis append.assoc append_Cons append_Nil)
  then have "chain h p (butlast pre @ last pre # (c, v) # post)"
    using assms(1) by (simp only:)
  then have "chain h (fst (hd (last pre # (c, v) # post))) (last pre # (c, v) # post)"
    by (rule chain_suffix) simp
  then show "fst (last pre) \<noteq> NULL" and "\<exists>pn. h (fst (last pre)) = Some pn \<and> next pn = c"
    by auto
  have notin: "c \<notin> fst ` set pre"
    using assms(1) by (rule chain_mid_live)
  then show "fst (last pre) \<noteq> c"
    using assms(2) by (metis image_eqI last_in_set)
  obtain y ys where "pre = y # ys"
    using assms(2) by (cases pre) auto
  with assms(1) notin show "p \<noteq> c"
    by auto
qed

lemma delete_found_head:
  assumes "l \<noteq> NULL" and "lists s l = Some c" and "c \<noteq> NULL" and "nodes s c = Some n"
  shows "delete_found l c c s =
           Ret (0, s\<lparr>nodes := (nodes s)(c := None), lists := (lists s)(l \<mapsto> next n)\<rparr>)"
proof -
  have "(nodes s)(c \<mapsto> n) = nodes s"
    using assms(4) by (simp add: map_upd_triv)
  then show ?thesis
    using assms by (simp add: delete_found_def deref_live)
qed

lemma delete_found_inner:
  assumes "l \<noteq> NULL" and "lists s l = Some head" and "head \<noteq> c" and "p \<noteq> c"
    and "c \<noteq> NULL" and "nodes s c = Some n" and "p \<noteq> NULL" and "nodes s p = Some pn"
  shows "delete_found l p c s =
           Ret (0, s\<lparr>nodes := (nodes s)(p \<mapsto> pn\<lparr>next := next n\<rparr>, c := None)\<rparr>)"
  using assms by (simp add: delete_found_def deref_live)

lemma LinkedList_delete_head:
  assumes "list_rep s l ((c, v) # post)"
  shows "\<exists>n. nodes s c = Some n \<and> lists s l = Some c \<and>
           LinkedList_delete v l s =
             Some (Ret (0, s\<lparr>nodes := (nodes s)(c := None), lists := (lists s)(l \<mapsto> next n)\<rparr>)) \<and>
           list_rep (s\<lparr>nodes := (nodes s)(c := None), lists := (lists s)(l \<mapsto> next n)\<rparr>) l post"
proof -
  from assms obtain head where h: "l \<noteq> NULL" "lists s l = Some head"
      "chain (nodes s) head ([] @ (c, v) # post)"
    by (auto elim: list_repE)
  then obtain n where n: "head = c" "c \<noteq> NULL" "nodes s c = Some n" "chain (nodes s) (next n) post"
    by auto
  have "c \<notin> fst ` set post"
    using h(3) by (rule chain_mid_live)
  then have "chain ((nodes s)(c := None)) (next n) post"
    using n(4) by (simp add: chain_upd_other)
  then have "list_rep (s\<lparr>nodes := (nodes s)(c := None), lists := (lists s)(l \<mapsto> next n)\<rparr>) l post"
    using h(1) by (simp add: list_rep_def)
  moreover have "LinkedList_delete v l s = Some (delete_found l c c s)"
    using h(1,2) n(1) delete_loop_hit [OF h(3), of l head]
    by (simp add: LinkedList_delete_def deref_live)
  ultimately show ?thesis
    using h n delete_found_head [of l s c n] by simp
qed

lemma LinkedList_delete_inner:
  assumes "list_rep s l (pre @ (c, v) # post)" and "pre \<noteq> []" and "v \<notin> snd ` set pre"
  shows "\<exists>n pn. nodes s c = Some n \<and> nodes s (fst (last pre)) = Some pn \<and>
           LinkedList_delete v l s =
             Some (Ret (0, s\<lparr>nodes := (nodes s)(fst (last pre) \<mapsto> pn\<lparr>next := next n\<rparr>, c := None)\<rparr>)) \<and>
           list_rep (s\<lparr>nodes := (nodes s)(fst (last pre) \<mapsto> pn\<lparr>next := next n\<rparr>, c := None)\<rparr>) l
             (pre @ post)"
proof -
  from assms obtain head where h: "l \<noteq> NULL" "lists s l = Some head"
      "chain (nodes s) head (pre @ (c, v) # post)"
    by (auto elim: list_repE)
  from chain_mid_live [OF h(3)] obtain n where n: "c \<noteq> NULL" "nodes s c = Some n"
    by blast
  from chain_pre_last_live [OF h(3) assms(2)] obtain pn
    where p: "fst (last pre) \<noteq> NULL" "nodes s (fst (last pre)) = Some pn" "fst (last pre) \<noteq> c"
      "head \<noteq> c"
    by blast
  let ?s' = "s\<lparr>nodes := (nodes s)(fst (last pre) \<mapsto> pn\<lparr>next := next n\<rparr>, c := None)\<rparr>"
  have "chain (nodes ?s') head (pre @ post)"
    using chain_unlink [OF h(3) assms(2) p(2) n(2)] by simp
  then have "list_rep ?s' l (pre @ post)"
    using h(1,2) by (simp add: list_rep_def)
  moreover have "LinkedList_delete v l s = Some (delete_found l (fst (last pre)) c s)"
    using h(1,2) assms(2) delete_loop_hit [OF h(3) assms(3), of l head]
    by (simp add: LinkedList_delete_def deref_live)
  moreover have "delete_found l (fst (last pre)) c s = Ret (0, ?s')"
    using h(1,2) p(4,3) n p(1,2) by (rule delete_found_inner)
  ultimately show ?thesis
    using n(2) p(2) by simp
qed

lemma LinkedList_delete_missing:
  assumes "list_rep s l xs" and "v \<notin> snd ` set xs"
  shows "LinkedList_delete v l s = Some (Ret (1, s))"
proof -
  from assms obtain head where h: "l \<noteq> NULL" "lists s l = Some head" "chain (nodes s) head xs"
    by (auto elim: list_repE)
  then show ?thesis
    using delete_loop_miss [OF h(3) assms(2)]
    by (simp add: LinkedList_delete_def deref_live)
qed

section \<open>Indexed lookup\<close>

declare get_loop.simps [simp del]

lemma unat_inc_less:
  fixes i index :: size_t
  assumes "i < index"
  shows "unat (i + 1) = Suc (unat i)"
proof -
  have "unat i < unat index"
    using assms by (simp add: word_less_nat_alt)
  moreover have "unat index < 2 ^ LENGTH(64)"
    by (rule unsigned_less)
  ultimately have "unat i + unat (1 :: size_t) < 2 ^ LENGTH(64)"
    by simp
  then have "unat (i + 1) = unat i + unat (1 :: size_t)"
    by (simp only: unat_add_lem)
  then show ?thesis by simp
qed

lemma get_loop_chain:
  "chain (nodes s) p xs \<Longrightarrow> i \<le> index \<Longrightarrow> unat index - unat i < length xs \<Longrightarrow>
     get_loop s i index p = Ret (fst (xs ! (unat index - unat i)))"
proof (induction xs arbitrary: p i)
  case Nil
  then show ?case by simp
next
  case (Cons x xs)
  from Cons.prems(1) obtain n where n: "p = fst x" "p \<noteq> NULL" "nodes s p = Some n"
      "chain (nodes s) (next n) xs"
    by auto
  show ?case
  proof (cases "i < index")
    case True
    then have less: "unat i < unat index"
      by (simp add: word_less_nat_alt)
    have suc: "unat (i + 1) = Suc (unat i)"
      using True by (rule unat_inc_less)
    have "get_loop s i index p = get_loop s (i + 1) index (next n)"
      using True n by (subst get_loop.simps) (simp add: deref_live)
    also have "\<dots> = Ret (fst (xs ! (unat index - unat (i + 1))))"
    proof (rule Cons.IH [OF n(4)])
      show "i + 1 \<le> index"
        using True by (rule inc_le)
      show "unat index - unat (i + 1) < length xs"
        using Cons.prems(3) less suc by simp
    qed
    also have "xs ! (unat index - unat (i + 1)) = (x # xs) ! (unat index - unat i)"
      using less suc by (simp add: nth_Cons')
    finally show ?thesis .
  next
    case False
    with Cons.prems(2) have "i = index" by simp
    then show ?thesis
      using n(1) by (subst get_loop.simps) simp
  qed
qed

lemma chain_nth_live:
  assumes "chain h p xs" and "k < length xs"
  shows "fst (xs ! k) \<noteq> NULL" and "\<exists>n. h (fst (xs ! k)) = Some n \<and> value n = snd (xs ! k)"
proof -
  have mem: "xs ! k \<in> set xs"
    using assms(2) by simp
  then have "fst (xs ! k) \<in> fst ` set xs"
    by (rule imageI)
  with chain_not_NULL [OF assms(1)] show "fst (xs ! k) \<noteq> NULL"
    by metis
  from mem have "(fst (xs ! k), snd (xs ! k)) \<in> set xs"
    by simp
  with assms(1) show "\<exists>n. h (fst (xs ! k)) = Some n \<and> value n = snd (xs ! k)"
    by (rule chain_live)
qed

lemma of_nat_length_eq_0:
  assumes "chain h p xs"
  shows "(of_nat (length xs) :: size_t) = 0 \<longleftrightarrow> xs = []"
proof -
  have "(of_nat (length xs) :: size_t) = 0 \<longleftrightarrow> unat (of_nat (length xs) :: size_t) = 0"
    by (simp add: unat_eq_0)
  then show ?thesis
    by (simp add: unat_of_nat_length [OF assms])
qed

lemma of_nat_length_le:
  assumes "chain h p xs"
  shows "(of_nat (length xs) :: size_t) \<le> index \<longleftrightarrow> length xs \<le> unat index"
  by (simp add: word_le_nat_alt unat_of_nat_length [OF assms])

lemma LinkedList_get_empty:
  assumes "list_rep s l []"
  shows "LinkedList_get index l r s = Some (Ret (GOT_EMPTY_LIST, s))"
proof -
  from assms obtain head where h: "l \<noteq> NULL" "lists s l = Some head"
    by (auto elim: list_repE)
  then show ?thesis
    using LinkedList_len_rep [OF assms]
    by (simp add: LinkedList_get_def deref_live)
qed

lemma LinkedList_get_out_of_bounds:
  assumes "list_rep s l xs" and "xs \<noteq> []" and "length xs \<le> unat index"
  shows "LinkedList_get index l r s = Some (Ret (GOT_OUT_OF_BOUNDS, s))"
proof -
  from assms obtain head where h: "l \<noteq> NULL" "lists s l = Some head" "chain (nodes s) head xs"
    by (auto elim: list_repE)
  then show ?thesis
    using LinkedList_len_rep [OF assms(1)] assms(2,3)
    by (simp add: LinkedList_get_def deref_live of_nat_length_eq_0 [OF h(3)]
        of_nat_length_le [OF h(3)])
qed

lemma LinkedList_get_ok:
  assumes "list_rep s l xs" and "unat index < length xs" and "r \<noteq> NULL" and "cells s r = Some old"
  shows "LinkedList_get index l r s =
           Some (Ret (GOT_OK, s\<lparr>cells := (cells s)(r \<mapsto> snd (xs ! unat index))\<rparr>))"
proof -
  from assms obtain head where h: "l \<noteq> NULL" "lists s l = Some head" "chain (nodes s) head xs"
    by (auto elim: list_repE)
  have ne: "xs \<noteq> []"
    using assms(2) by auto
  have loop: "get_loop s 0 index head = Ret (fst (xs ! (unat index - unat (0 :: size_t))))"
    using h(3) by (rule get_loop_chain) (simp_all add: assms(2))
  from chain_nth_live [OF h(3) assms(2)] obtain n
    where n: "fst (xs ! unat index) \<noteq> NULL" "nodes s (fst (xs ! unat index)) = Some n"
      "value n = snd (xs ! unat index)"
    by blast
  show ?thesis
    using h(1,2) LinkedList_len_rep [OF assms(1)] ne assms(2,3,4) loop n
    by (simp add: LinkedList_get_def deref_live of_nat_length_eq_0 [OF h(3)]
        of_nat_length_le [OF h(3)])
qed

section \<open>Construction, repeated appends and teardown\<close>

lemma LinkedList_make_rep:
  "m \<noteq> NULL \<Longrightarrow> fst (LinkedList_make m s) = m \<and> list_rep (snd (LinkedList_make m s)) m [] \<and>
     nodes (snd (LinkedList_make m s)) = nodes s \<and> cells (snd (LinkedList_make m s)) = cells s"
  by (simp add: LinkedList_make_def list_rep_def)

lemma appends_rep:
  assumes "list_rep s l xs" and "distinct (map fst mvs)"
    and "\<forall>m \<in> fst ` set mvs. m \<noteq> NULL \<and> nodes s m = None"
  shows "\<exists>s'. appends mvs l s = Some (Ret s') \<and> list_rep s' l (xs @ mvs) \<and> cells s' = cells s"
  using assms
proof (induction mvs arbitrary: s xs)
  case Nil
  then show ?case by simp
next
  case (Cons mv mvs)
  have "fst mv \<noteq> NULL" "nodes s (fst mv) = None"
    using Cons.prems(3) by simp_all
  with LinkedList_append_ok [OF Cons.prems(1), of "fst mv" "snd mv"] obtain s1
    where s1: "LinkedList_append (fst mv) (snd mv) l s = Some (Ret s1)"
      "list_rep s1 l (xs @ [mv])" "dom (nodes s1) = insert (fst mv) (dom (nodes s))"
      "cells s1 = cells s"
    by auto
  have "\<forall>m \<in> fst ` set mvs. m \<noteq> NULL \<and> nodes s1 m = None"
  proof
    fix m assume m: "m \<in> fst ` set mvs"
    from Cons.prems(2) have "fst mv \<notin> fst ` set mvs"
      by simp
    with m have "m \<noteq> fst mv"
      by metis
    moreover from m Cons.prems(3) have "m \<noteq> NULL" "m \<notin> dom (nodes s)"
      by (auto simp: domIff)
    ultimately have "m \<noteq> fst mv" "m \<noteq> NULL" "m \<notin> dom (nodes s)"
      by simp_all
    with s1(3) have "m \<notin> dom (nodes s1)" by simp
    with \<open>m \<noteq> NULL\<close> show "m \<noteq> NULL \<and> nodes s1 m = None" by (simp add: domIff)
  qed
  with Cons.IH [OF s1(2)] Cons.prems(2) obtain s'
    where "appends mvs l s1 = Some (Ret s')" "list_rep s' l ((xs @ [mv]) @ mvs)" "cells s' = cells s1"
    by auto
  with s1 show ?case by simp
qed

lemma free_loop_chain:
  "chain (nodes s) p xs \<Longrightarrow>
     free_loop p s = Some (Ret (s\<lparr>nodes := (\<lambda>a. if a \<in> fst ` set xs then None else nodes s a)\<rparr>))"
proof (induction xs arbitrary: p s)
  case Nil
  then show ?case by (subst free_loop.simps) simp
next
  case (Cons x xs)
  from Cons.prems obtain n where n: "p = fst x" "p \<noteq> NULL" "nodes s p = Some n"
      "chain (nodes s) (next n) xs"
    by auto
  let ?s1 = "s\<lparr>nodes := (nodes s)(p := None)\<rparr>"
  have "fst x \<notin> fst ` set xs"
    using Cons.prems by (rule chain_head_notin_tail)
  then have "chain (nodes ?s1) (next n) xs"
    using n(1,4) by (simp add: chain_upd_other)
  then have "free_loop (next n) ?s1 =
      Some (Ret (?s1\<lparr>nodes := (\<lambda>a. if a \<in> fst ` set xs then None else nodes ?s1 a)\<rparr>))"
    by (rule Cons.IH)
  moreover have "free_loop p s = free_loop (next n) ?s1"
    using n by (subst free_loop.simps) (simp add: deref_live)
  moreover have "(\<lambda>a. if a \<in> fst ` set xs then None else nodes ?s1 a) =
      (\<lambda>a. if a \<in> fst ` set (x # xs) then None else nodes s a)"
    using n(1) by auto
  ultimately show ?case by simp
qed

lemma LinkedList_free_rep:
  assumes "list_rep s l xs"
  shows "LinkedList_free l s =
     Some (Ret (s\<lparr>nodes := (\<lambda>a. if a \<in> fst ` set xs then None else nodes s a),
                   lists := (lists s)(l := None)\<rparr>))"
proof -
  from assms obtain head where h: "l \<noteq> NULL" "lists s l = Some head" "chain (nodes s) head xs"
    by (auto elim: list_repE)
  then show ?thesis
    using free_loop_chain [OF h(3)] by (simp add: LinkedList_free_def deref_live)
qed

section \<open>Derived facts about the operations\<close>

lemma mallocs_okD:
  "mallocs_ok s (map fst mvs) \<Longrightarrow>
     distinct (map fst mvs) \<and> (\<forall>m \<in> fst ` set mvs. m \<noteq> NULL \<and> nodes s m = None)"
  by (auto simp: mallocs_ok_def list_all_iff)

lemma fresh_appends_rep:
  assumes "LinkedList_make m0 s0 = (l, s1)" and "l \<noteq> NULL" and "mallocs_ok s1 (map fst mvs)"
  shows "list_rep s1 l [] \<and> (\<exists>s'. appends mvs l s1 = Some (Ret s') \<and> list_rep s' l mvs \<and> cells s' = cells s1)"
proof -
  have m0: "m0 \<noteq> NULL"
    using assms(1,2) by (auto simp: LinkedList_make_def split: if_splits)
  with LinkedList_make_rep [OF m0, of s0] assms(1) have rep: "list_rep s1 l []"
    by simp
  from appends_rep [OF rep, of mvs] mallocs_okD [OF assms(3)] rep show ?thesis
    by simp
qed

lemma LinkedList_get_nth:
  assumes "list_rep s l xs" and "i < length xs" and "r \<noteq> NULL" and "cells s r = Some old"
  shows "LinkedList_get (of_nat i) l r s =
           Some (Ret (GOT_OK, s\<lparr>cells := (cells s)(r \<mapsto> snd (xs ! i))\<rparr>))"
proof -
  from assms(1) obtain head where "chain (nodes s) head xs"
    by (rule list_repE)
  then have "length xs < 2 ^ 64"
    by (rule chain_length_bound)
  with assms(2) have "unat (of_nat i :: size_t) = i"
    by (simp add: unat_of_nat)
  with LinkedList_get_ok [OF assms(1) _ assms(3,4), of "of_nat i"] assms(2) show ?thesis
    by simp
qed

lemma LinkedList_delete_first:
  assumes "list_rep s l (pre @ (c, v) # post)" and "v \<notin> snd ` set pre"
  shows "\<exists>n s'. nodes s c = Some n \<and> LinkedList_delete v l s = Some (Ret (0, s')) \<and>
           list_rep s' l (pre @ post) \<and> cells s' = cells s \<and>
           (pre = [] \<longrightarrow> lists s l = Some c \<and> lists s' = (lists s)(l \<mapsto> next n) \<and>
              nodes s' = (nodes s)(c := None)) \<and>
           (pre \<noteq> [] \<longrightarrow> lists s' = lists s \<and>
              (\<exists>pn. nodes s (fst (last pre)) = Some pn \<and> next pn = c \<and>
                 nodes s' = (nodes s)(fst (last pre) \<mapsto> pn\<lparr>next := next n\<rparr>, c := None)))"
proof (cases "pre = []")
  case True
  with LinkedList_delete_head [of s l c v post] assms(1) show ?thesis
    by auto
next
  case False
  from assms(1) obtain head where h: "chain (nodes s) head (pre @ (c, v) # post)"
    by (rule list_repE)
  from chain_pre_last_live(2) [OF h False] obtain pn0
    where pn0: "nodes s (fst (last pre)) = Some pn0" "next pn0 = c"
    by blast
  from LinkedList_delete_inner [OF assms(1) False assms(2)] obtain n pn
    where "nodes s c = Some n" "nodes s (fst (last pre)) = Some pn"
      "LinkedList_delete v l s =
         Some (Ret (0, s\<lparr>nodes := (nodes s)(fst (last pre) \<mapsto> pn\<lparr>next := next n\<rparr>, c := None)\<rparr>))"
      "list_rep (s\<lparr>nodes := (nodes s)(fst (last pre) \<mapsto> pn\<lparr>next := next n\<rparr>, c := None)\<rparr>) l
         (pre @ post)"
    by blast
  with pn0 False show ?thesis
    by auto
qed

lemma delete_relinks_at:
  fixes s :: "'a state"
  assumes "list_rep s l (pre @ (c, v) # post)" and "v \<notin> snd ` set pre"
  shows "\<exists>n s'. nodes s c = Some n \<and> LinkedList_delete v l s = Some (Ret (0, s')) \<and>
           (pre = [] \<longrightarrow> lists s l = Some c \<and> lists s' = (lists s)(l \<mapsto> next n) \<and>
              nodes s' = (nodes s)(c := None) \<and> (post = [] \<longrightarrow> lists s' l = Some NULL)) \<and>
           (pre \<noteq> [] \<longrightarrow> lists s' = lists s \<and>
              (\<exists>pn. nodes s (fst (last pre)) = Some pn \<and> next pn = c \<and>
                 nodes s' = (nodes s)(fst (last pre) \<mapsto> pn\<lparr>next := next n\<rparr>, c := None))) \<and>
           list_rep s' l (pre @ post) \<and>
           LinkedList_len l s' = Some (Ret (of_nat (length pre + length post))) \<and>
           (\<forall>i r old. i < length (pre @ post) \<and> r \<noteq> NULL \<and> cells s' r = Some old \<longrightarrow>
              LinkedList_get (of_nat i) l r s' =
                Some (Ret (GOT_OK, s'\<lparr>cells := (cells s')(r \<mapsto> snd ((pre @ post) ! i))\<rparr>)))"
proof -
  from LinkedList_delete_first [OF assms] obtain n s'
    where n: "nodes s c = Some n" and del: "LinkedList_delete v l s = Some (Ret (0, s'))"
      and rep: "list_rep s' l (pre @ post)"
      and hd: "pre = [] \<longrightarrow> lists s l = Some c \<and> lists s' = (lists s)(l \<mapsto> next n) \<and>
              nodes s' = (nodes s)(c := None)"
      and inner: "pre \<noteq> [] \<longrightarrow> lists s' = lists s \<and>
              (\<exists>pn. nodes s (fst (last pre)) = Some pn \<and> next pn = c \<and>
                 nodes s' = (nodes s)(fst (last pre) \<mapsto> pn\<lparr>next := next n\<rparr>, c := None))"
    by blast
  have last: "pre = [] \<longrightarrow> post = [] \<longrightarrow> lists s' l = Some NULL"
  proof (intro impI)
    assume "pre = []" and "post = []"
    with rep have "list_rep s' l []" by simp
    then show "lists s' l = Some NULL"
      by (auto elim: list_repE)
  qed
  have len: "LinkedList_len l s' = Some (Ret (of_nat (length pre + length post)))"
    using LinkedList_len_rep [OF rep] by simp
  have get: "\<forall>i r old. i < length (pre @ post) \<and> r \<noteq> NULL \<and> cells s' r = Some old \<longrightarrow>
      LinkedList_get (of_nat i) l r s' =
        Some (Ret (GOT_OK, s'\<lparr>cells := (cells s')(r \<mapsto> snd ((pre @ post) ! i))\<rparr>))"
    using LinkedList_get_nth [OF rep] by blast
  from n del hd inner last rep len get show ?thesis
    by blast
qed

lemma first_match_split:
  "v \<in> snd ` set xs \<Longrightarrow> \<exists>pre c post. xs = pre @ (c, v) # post \<and> v \<notin> snd ` set pre"
proof (induction xs)
  case Nil
  then show ?case by simp
next
  case (Cons x xs)
  show ?case
  proof (cases "snd x = v")
    case True
    then have "x # xs = [] @ (fst x, v) # xs \<and> v \<notin> snd ` set []"
      by auto
    then show ?thesis
      by blast
  next
    case False
    with Cons.prems have "v \<in> snd ` set xs"
      by auto
    with Cons.IH obtain pre c post where "xs = pre @ (c, v) # post" "v \<notin> snd ` set pre"
      by blast
    with False have "x # xs = (x # pre) @ (c, v) # post \<and> v \<notin> snd ` set (x # pre)"
      by auto
    then show ?thesis
      by blast
  qed
qed

lemma first_match_unique:
  "pre @ (c, v) # post = pre' @ (c', v) # post' \<Longrightarrow> v \<notin> snd ` set pre \<Longrightarrow> v \<notin> snd ` set pre' \<Longrightarrow>
     pre = pre' \<and> c = c' \<and> post = post'"
proof (induction pre arbitrary: pre')
  case Nil
  then show ?case by (cases pre') auto
next
  case (Cons x pre)
  show ?case
  proof (cases pre')
    case Nil
    with Cons.prems show ?thesis by auto
  next
    case (Cons y ys)
    with Cons.prems have "x = y" "pre @ (c, v) # post = ys @ (c', v) # post'"
        "v \<notin> snd ` set pre" "v \<notin> snd ` set ys"
      by auto
    with Cons.IH [of ys] Cons show ?thesis by simp
  qed
qed

lemma list_rep_wf:
  assumes "list_rep s l xs"
  shows "wf_list s l xs"
proof -
  from assms obtain head where h: "chain (nodes s) head xs"
    by (rule list_repE)
  from chain_distinct [OF h] chain_length_bound [OF h] LinkedList_len_rep [OF assms] assms
  show ?thesis
    by (simp add: wf_list_def)
qed

lemma list_rep_cells_upd: "list_rep (s\<lparr>cells := c\<rparr>) l xs = list_rep s l xs"
  by (simp add: list_rep_def split: option.splits)

section \<open>The claims\<close>

text \<open>
  C4. After N appends (each with a successful allocation) to a freshly made list,
  \<^verbatim>\<open>len\<close> returns exactly N, as a \<^verbatim>\<open>size_t\<close> that has not wrapped around; on the
  freshly made list it returns 0.
\<close>

theorem len_counts_appends:
  assumes "LinkedList_make m0 s0 = (l, s1)" and "l \<noteq> NULL" and "mallocs_ok s1 (map fst mvs)"
  shows "LinkedList_len l s1 = Some (Ret 0) \<and>
         (\<exists>s'. appends mvs l s1 = Some (Ret s') \<and>
               LinkedList_len l s' = Some (Ret (of_nat (length mvs))) \<and>
               unat (of_nat (length mvs) :: size_t) = length mvs)"
proof -
  from fresh_appends_rep [OF assms] obtain s'
    where rep0: "list_rep s1 l []" and run: "appends mvs l s1 = Some (Ret s')"
      and rep: "list_rep s' l mvs"
    by blast
  from rep obtain head where "chain (nodes s') head mvs"
    by (rule list_repE)
  then have "unat (of_nat (length mvs) :: size_t) = length mvs"
    by (rule unat_of_nat_length)
  with LinkedList_len_rep [OF rep0] LinkedList_len_rep [OF rep] run show ?thesis
    by simp
qed

theorem len_counts_appends_witness:
  "LinkedList_make 100 ex_blank = (100, ex_empty) \<and> (100 :: ptr) \<noteq> NULL \<and>
   mallocs_ok ex_empty (map fst [(1, 10), (2, 20), (3, 30 :: c_int)]) \<and>
   LinkedList_len 100 ex_empty = Some (Ret 0) \<and>
   appends [(1, 10), (2, 20), (3, 30)] 100 ex_empty = Some (Ret ex_abc) \<and>
   LinkedList_len 100 ex_abc = Some (Ret 3)"
proof -
  have mk: "LinkedList_make 100 ex_blank = (100, ex_empty)"
    by (simp add: LinkedList_make_def ex_blank_def ex_empty_def)
  have nn: "(100 :: ptr) \<noteq> NULL"
    by simp
  have ok: "mallocs_ok ex_empty (map fst [(1, 10), (2, 20), (3, 30 :: c_int)])"
    by (simp add: mallocs_ok_def ex_empty_def)
  have run: "appends [(1, 10), (2, 20), (3, 30)] 100 ex_empty = Some (Ret ex_abc)"
    by (simp add: LinkedList_append_def LinkedList_new_def deref_def append_loop.simps
        ex_empty_def ex_abc_def fun_upd_twist)
  show ?thesis
    using mk nn ok run len_counts_appends [OF mk nn ok] by simp
qed

text \<open>
  C6. Deleting a value that no element of the list equals returns 1 (not found) and leaves
  the whole memory as it was: the head, every node and every link.
\<close>

theorem delete_missing_unchanged:
  assumes "list_rep s l xs" and "v \<notin> snd ` set xs"
  shows "LinkedList_delete v l s = Some (Ret (1, s))"
  using assms by (rule LinkedList_delete_missing)

theorem delete_missing_unchanged_witness:
  "list_rep ex_abc 100 [(1, 10), (2, 20), (3, 30)] \<and>
   (40 :: c_int) \<notin> snd ` set [(1 :: ptr, 10), (2, 20), (3, 30)] \<and>
   LinkedList_delete 40 100 ex_abc = Some (Ret (1, ex_abc))"
proof -
  have rep: "list_rep ex_abc 100 [(1, 10), (2, 20), (3, 30)]"
    by (simp add: list_rep_def ex_abc_def)
  have absent: "(40 :: c_int) \<notin> snd ` set [(1 :: ptr, 10), (2, 20), (3, 30)]"
    by simp
  show ?thesis
    using rep absent delete_missing_unchanged [OF rep absent] by simp
qed

text \<open>
  C1. Deleting a value \<open>v\<close> present in the list relinks the chain around the first node
  holding it: the list is \<open>pre @ (c, v) # post\<close> with \<open>v\<close> not among the values of
  \<open>pre\<close>, and the node at \<open>c\<close> is removed. When \<open>pre\<close> is empty that node is the head,
  and \<open>head\<close> becomes its \<open>next\<close> (\<open>NULL\<close> when it was the only node). Otherwise
  \<open>head\<close> stays, and the \<open>next\<close> of the predecessor, the last node of \<open>pre\<close>, becomes
  the \<open>next\<close> of the removed node. In both cases the removed node is freed, no other node
  changes, the list that remains is \<open>pre @ post\<close>, \<^verbatim>\<open>len\<close> is one less, and \<^verbatim>\<open>get(i)\<close>
  returns the \<open>i\<close>-th element of \<open>pre @ post\<close>.
\<close>

theorem delete_relinks:
  fixes s :: "'a state"
  assumes "list_rep s l xs" and "v \<in> snd ` set xs"
  shows "\<exists>pre c post n s'. xs = pre @ (c, v) # post \<and> v \<notin> snd ` set pre \<and>
           nodes s c = Some n \<and> LinkedList_delete v l s = Some (Ret (0, s')) \<and>
           (pre = [] \<longrightarrow> lists s l = Some c \<and> lists s' = (lists s)(l \<mapsto> next n) \<and>
              nodes s' = (nodes s)(c := None) \<and> (post = [] \<longrightarrow> lists s' l = Some NULL)) \<and>
           (pre \<noteq> [] \<longrightarrow> lists s' = lists s \<and>
              (\<exists>pn. nodes s (fst (last pre)) = Some pn \<and> next pn = c \<and>
                 nodes s' = (nodes s)(fst (last pre) \<mapsto> pn\<lparr>next := next n\<rparr>, c := None))) \<and>
           list_rep s' l (pre @ post) \<and>
           LinkedList_len l s' = Some (Ret (of_nat (length xs - 1))) \<and>
           (\<forall>i r old. i < length (pre @ post) \<and> r \<noteq> NULL \<and> cells s' r = Some old \<longrightarrow>
              LinkedList_get (of_nat i) l r s' =
                Some (Ret (GOT_OK, s'\<lparr>cells := (cells s')(r \<mapsto> snd ((pre @ post) ! i))\<rparr>)))"
proof -
  from first_match_split [OF assms(2)] obtain pre c post
    where xs: "xs = pre @ (c, v) # post" and first: "v \<notin> snd ` set pre"
    by blast
  from assms(1) have "list_rep s l (pre @ (c, v) # post)"
    unfolding xs .
  from delete_relinks_at [OF this first] obtain n :: "'a node" and s'
    where n: "nodes s c = Some n"
      and del: "LinkedList_delete v l s = Some (Ret (0, s'))"
      and hd: "pre = [] \<longrightarrow> lists s l = Some c \<and> lists s' = (lists s)(l \<mapsto> next n) \<and>
              nodes s' = (nodes s)(c := None) \<and> (post = [] \<longrightarrow> lists s' l = Some NULL)"
      and inner: "pre \<noteq> [] \<longrightarrow> lists s' = lists s \<and>
              (\<exists>pn. nodes s (fst (last pre)) = Some pn \<and> next pn = c \<and>
                 nodes s' = (nodes s)(fst (last pre) \<mapsto> pn\<lparr>next := next n\<rparr>, c := None))"
      and rep: "list_rep s' l (pre @ post)"
      and len: "LinkedList_len l s' = Some (Ret (of_nat (length pre + length post)))"
      and get: "\<forall>i r old. i < length (pre @ post) \<and> r \<noteq> NULL \<and> cells s' r = Some old \<longrightarrow>
              LinkedList_get (of_nat i) l r s' =
                Some (Ret (GOT_OK, s'\<lparr>cells := (cells s')(r \<mapsto> snd ((pre @ post) ! i))\<rparr>))"
    by (elim exE conjE) (rule that; assumption)
  have "length pre + length post = length xs - 1"
    unfolding xs by simp
  with len have len': "LinkedList_len l s' = Some (Ret (of_nat (length xs - 1)))"
    by (simp only:)
  show ?thesis
    apply (rule exI [where x = pre])
    apply (rule exI [where x = c])
    apply (rule exI [where x = post])
    apply (rule exI [where x = n])
    apply (rule exI [where x = s'])
    apply (intro conjI xs first n del hd inner rep len' get)
    done
qed

theorem delete_relinks_witness:
  "list_rep ex_abc 100 [(1, 10), (2, 20), (3, 30)] \<and>
   (20 :: c_int) \<in> snd ` set [(1 :: ptr, 10), (2, 20), (3, 30)] \<and>
   LinkedList_delete 20 100 ex_abc =
     Some (Ret (0, ex_abc\<lparr>nodes := [1 \<mapsto> \<lparr>value = 10, next = 3\<rparr>, 3 \<mapsto> \<lparr>value = 30, next = NULL\<rparr>]\<rparr>)) \<and>
   list_rep (ex_abc\<lparr>nodes := [1 \<mapsto> \<lparr>value = 10, next = 3\<rparr>, 3 \<mapsto> \<lparr>value = 30, next = NULL\<rparr>]\<rparr>)
     100 [(1, 10), (3, 30)] \<and>
   LinkedList_len 100 (ex_abc\<lparr>nodes := [1 \<mapsto> \<lparr>value = 10, next = 3\<rparr>, 3 \<mapsto> \<lparr>value = 30, next = NULL\<rparr>]\<rparr>)
     = Some (Ret 2) \<and>
   LinkedList_get 1 100 200
       (ex_abc\<lparr>nodes := [1 \<mapsto> \<lparr>value = 10, next = 3\<rparr>, 3 \<mapsto> \<lparr>value = 30, next = NULL\<rparr>]\<rparr>)
     = Some (Ret (GOT_OK,
         ex_abc\<lparr>nodes := [1 \<mapsto> \<lparr>value = 10, next = 3\<rparr>, 3 \<mapsto> \<lparr>value = 30, next = NULL\<rparr>],
                cells := [200 \<mapsto> 30]\<rparr>)) \<and>
   (10 :: c_int) \<in> snd ` set [(1 :: ptr, 10), (2, 20), (3, 30)] \<and>
   (\<exists>s'. LinkedList_delete 10 100 ex_abc = Some (Ret (0, s')) \<and> lists s' 100 = Some 2 \<and>
      list_rep s' 100 [(2, 20), (3, 30)] \<and> LinkedList_len 100 s' = Some (Ret 2)) \<and>
   list_rep ex_one 100 [(1, 12)] \<and>
   (12 :: c_int) \<in> snd ` set [(1 :: ptr, 12)] \<and>
   (\<exists>s'. LinkedList_delete 12 100 ex_one = Some (Ret (0, s')) \<and> lists s' 100 = Some NULL \<and>
      list_rep s' 100 [])"
proof -
  let ?abc = "[(1 :: ptr, 10 :: c_int), (2, 20), (3, 30)]"
  let ?ac = "ex_abc\<lparr>nodes := [1 \<mapsto> \<lparr>value = 10, next = 3\<rparr>, 3 \<mapsto> \<lparr>value = 30, next = NULL\<rparr>]\<rparr>"
  have rep: "list_rep ex_abc 100 ?abc"
    by (simp add: list_rep_def ex_abc_def)
  have mem_b: "(20 :: c_int) \<in> snd ` set ?abc"
    by simp
  have mem_a: "(10 :: c_int) \<in> snd ` set ?abc"
    by simp
  have del: "LinkedList_delete 20 100 ex_abc = Some (Ret (0, ?ac))"
    by (simp add: LinkedList_delete_def delete_loop.simps delete_found_def deref_def ex_abc_def
        fun_upd_twist)
  have cell: "(200 :: ptr) \<noteq> NULL \<and> cells ?ac 200 = Some 77"
    by (simp add: ex_abc_def)
  from delete_relinks [OF rep mem_b] obtain pre c post s'
    where xs: "?abc = pre @ (c, 20) # post" and first: "20 \<notin> snd ` set pre"
      and run: "LinkedList_delete 20 100 ex_abc = Some (Ret (0, s'))"
      and rep': "list_rep s' 100 (pre @ post)"
      and len': "LinkedList_len 100 s' = Some (Ret (of_nat (length ?abc - 1)))"
      and get': "\<forall>i r old. i < length (pre @ post) \<and> r \<noteq> NULL \<and> cells s' r = Some old \<longrightarrow>
                 LinkedList_get (of_nat i) 100 r s' =
                   Some (Ret (GOT_OK, s'\<lparr>cells := (cells s')(r \<mapsto> snd ((pre @ post) ! i))\<rparr>))"
    by (elim exE conjE) (rule that; assumption)
  have "[(1, 10)] @ (2, 20) # [(3, 30)] = pre @ (c, 20) # post"
    using xs by simp
  from first_match_unique [OF this _ first]
  have shape: "pre = [(1, 10)]" "c = 2" "post = [(3, 30)]"
    by simp_all
  from run del have s': "s' = ?ac"
    by simp
  have mid: "list_rep ?ac 100 [(1, 10), (3, 30)]" "LinkedList_len 100 ?ac = Some (Ret 2)"
    using rep' len' unfolding s' shape by simp_all
  have "LinkedList_get (of_nat 1) 100 200 s' =
      Some (Ret (GOT_OK, s'\<lparr>cells := (cells s')(200 \<mapsto> snd ((pre @ post) ! 1))\<rparr>))"
    using cell unfolding s' [symmetric] by (intro get' [rule_format]) (simp add: shape)
  then have get: "LinkedList_get 1 100 200 ?ac = Some (Ret (GOT_OK, ?ac\<lparr>cells := [200 \<mapsto> 30]\<rparr>))"
    unfolding s' shape by (simp add: ex_abc_def)
  from delete_relinks [OF rep mem_a] obtain pre c post n s'
    where xs: "?abc = pre @ (c, 10) # post" and first: "10 \<notin> snd ` set pre"
      and n: "nodes ex_abc c = Some n"
      and run: "LinkedList_delete 10 100 ex_abc = Some (Ret (0, s'))"
      and hd: "pre = [] \<longrightarrow> lists ex_abc 100 = Some c \<and> lists s' = (lists ex_abc)(100 \<mapsto> next n) \<and>
                 nodes s' = (nodes ex_abc)(c := None) \<and> (post = [] \<longrightarrow> lists s' 100 = Some NULL)"
      and rep': "list_rep s' 100 (pre @ post)"
      and len': "LinkedList_len 100 s' = Some (Ret (of_nat (length ?abc - 1)))"
    by (elim exE conjE) (rule that; assumption)
  have "[] @ (1, 10) # [(2, 20), (3, 30)] = pre @ (c, 10) # post"
    using xs by simp
  from first_match_unique [OF this _ first]
  have shape: "pre = []" "c = 1" "post = [(2, 20), (3, 30)]"
    by simp_all
  from n shape have "next n = 2"
    by (auto simp: ex_abc_def)
  with hd shape rep' len' run
  have head: "\<exists>s'. LinkedList_delete 10 100 ex_abc = Some (Ret (0, s')) \<and> lists s' 100 = Some 2 \<and>
      list_rep s' 100 [(2, 20), (3, 30)] \<and> LinkedList_len 100 s' = Some (Ret 2)"
    by auto
  have rep_one: "list_rep ex_one 100 [(1, 12)]"
    by (simp add: list_rep_def ex_one_def)
  have mem_one: "(12 :: c_int) \<in> snd ` set [(1 :: ptr, 12)]"
    by simp
  from delete_relinks [OF rep_one mem_one] obtain pre c post and n :: "c_int node" and s'
    where xs: "[(1 :: ptr, 12 :: c_int)] = pre @ (c, 12) # post" and first: "12 \<notin> snd ` set pre"
      and run: "LinkedList_delete 12 100 ex_one = Some (Ret (0, s'))"
      and hd: "pre = [] \<longrightarrow> lists ex_one 100 = Some c \<and> lists s' = (lists ex_one)(100 \<mapsto> next n) \<and>
                 nodes s' = (nodes ex_one)(c := None) \<and> (post = [] \<longrightarrow> lists s' 100 = Some NULL)"
      and rep': "list_rep s' 100 (pre @ post)"
    by (elim exE conjE) (rule that; assumption)
  have "[] @ (1, 12) # [] = pre @ (c, 12) # post"
    using xs by simp
  from first_match_unique [OF this _ first]
  have shape: "pre = []" "c = 1" "post = []"
    by simp_all
  with hd rep' run
  have one: "\<exists>s'. LinkedList_delete 12 100 ex_one = Some (Ret (0, s')) \<and> lists s' 100 = Some NULL \<and>
      list_rep s' 100 []"
    by auto
  show ?thesis
    by (intro conjI rep mem_b del mid get mem_a head rep_one mem_one one)
qed

text \<open>
  C5. When the value occurs several times, delete removes the leftmost node holding it and
  nothing else. The list is \<open>pre @ (c, v) # post\<close> with \<open>v\<close> not among the values of
  \<open>pre\<close>; \<open>post\<close> may hold \<open>v\<close> again. What remains is \<open>pre @ post\<close>, node for node:
  the values are those of \<open>remove1\<close>, the node at \<open>c\<close> is freed, the nodes of \<open>post\<close>
  and the nodes of \<open>pre\<close> before its last are left exactly as they were (the last node of
  \<open>pre\<close> keeps its value and gets a new \<open>next\<close>), and so is every node outside the list.
\<close>

theorem delete_first_match_only:
  fixes s :: "'a state"
  assumes "list_rep s l (pre @ (c, v) # post)" and "v \<notin> snd ` set pre"
  shows "\<exists>s'. LinkedList_delete v l s = Some (Ret (0, s')) \<and> list_rep s' l (pre @ post) \<and>
           map snd (pre @ post) = remove1 v (map snd (pre @ (c, v) # post)) \<and>
           nodes s' c = None \<and>
           (\<forall>a \<in> fst ` set (butlast pre) \<union> fst ` set post. nodes s' a = nodes s a) \<and>
           (\<forall>a. a \<notin> fst ` set (pre @ (c, v) # post) \<longrightarrow> nodes s' a = nodes s a)"
proof -
  from LinkedList_delete_first [OF assms] obtain n :: "'a node" and s'
    where del: "LinkedList_delete v l s = Some (Ret (0, s'))"
      and rep: "list_rep s' l (pre @ post)"
      and hd: "pre = [] \<longrightarrow> nodes s' = (nodes s)(c := None)"
      and inner: "pre \<noteq> [] \<longrightarrow>
              (\<exists>pn. nodes s' = (nodes s)(fst (last pre) \<mapsto> pn\<lparr>next := next n\<rparr>, c := None))"
    by blast
  from hd inner have upd: "\<And>a. a \<noteq> c \<Longrightarrow> pre = [] \<or> a \<noteq> fst (last pre) \<Longrightarrow> nodes s' a = nodes s a"
    by (cases "pre = []") auto
  from hd inner have freed: "nodes s' c = None"
    by (cases "pre = []") auto
  from assms(1) obtain head where "chain (nodes s) head (pre @ (c, v) # post)"
    by (rule list_repE)
  then have "distinct (map fst (pre @ (c, v) # post))"
    by (rule chain_distinct)
  then have dist: "distinct (map fst pre)" "c \<notin> fst ` set pre" "c \<notin> fst ` set post"
      "fst ` set pre \<inter> fst ` set post = {}"
    by auto
  have vals: "map snd (pre @ post) = remove1 v (map snd (pre @ (c, v) # post))"
    using assms(2) by (simp add: remove1_append)
  have kept: "\<forall>a \<in> fst ` set (butlast pre) \<union> fst ` set post. nodes s' a = nodes s a"
  proof
    fix a assume a: "a \<in> fst ` set (butlast pre) \<union> fst ` set post"
    have "a \<noteq> c"
      using a dist(2,3) by (auto dest: in_set_butlastD)
    moreover have "pre = [] \<or> a \<noteq> fst (last pre)"
    proof (cases "pre = []")
      case True
      then show ?thesis by simp
    next
      case False
      then have split: "pre = butlast pre @ [last pre]"
        by simp
      have "distinct (map fst (butlast pre @ [last pre]))"
        using dist(1) split by simp
      then have "fst (last pre) \<notin> fst ` set (butlast pre)"
        by simp
      moreover have "fst (last pre) \<in> fst ` set pre"
        using False by simp
      then have "fst (last pre) \<notin> fst ` set post"
        using dist(4) by blast
      ultimately show ?thesis
        using a by auto
    qed
    ultimately show "nodes s' a = nodes s a"
      by (rule upd)
  qed
  have outside: "\<forall>a. a \<notin> fst ` set (pre @ (c, v) # post) \<longrightarrow> nodes s' a = nodes s a"
  proof (intro allI impI)
    fix a assume a: "a \<notin> fst ` set (pre @ (c, v) # post)"
    then have "a \<noteq> c"
      by auto
    moreover have "pre = [] \<or> a \<noteq> fst (last pre)"
    proof (cases "pre = []")
      case True
      then show ?thesis by simp
    next
      case False
      then have "fst (last pre) \<in> fst ` set pre"
        by simp
      with a show ?thesis
        by auto
    qed
    ultimately show "nodes s' a = nodes s a"
      by (rule upd)
  qed
  from del rep vals freed kept outside show ?thesis
    by blast
qed

theorem delete_first_match_only_witness:
  "appends [(1, 10), (2, 20), (3, 10)] 100 ex_empty = Some (Ret ex_aba) \<and>
   list_rep ex_aba 100 ([] @ (1, 10) # [(2, 20), (3, 10)]) \<and>
   (10 :: c_int) \<notin> snd ` set ([] :: (ptr \<times> c_int) list) \<and>
   (\<exists>s'. LinkedList_delete 10 100 ex_aba = Some (Ret (0, s')) \<and>
      list_rep s' 100 [(2, 20), (3, 10)] \<and> nodes s' 1 = None \<and>
      nodes s' 2 = nodes ex_aba 2 \<and> nodes s' 3 = nodes ex_aba 3)"
proof -
  have run: "appends [(1, 10), (2, 20), (3, 10)] 100 ex_empty = Some (Ret ex_aba)"
    by (simp add: LinkedList_append_def LinkedList_new_def deref_def append_loop.simps
        ex_empty_def ex_aba_def fun_upd_twist)
  have rep: "list_rep ex_aba 100 ([] @ (1, 10) # [(2, 20), (3, 10)])"
    by (simp add: list_rep_def ex_aba_def)
  have first: "(10 :: c_int) \<notin> snd ` set ([] :: (ptr \<times> c_int) list)"
    by simp
  from delete_first_match_only [OF rep first] obtain s'
    where "LinkedList_delete 10 100 ex_aba = Some (Ret (0, s'))"
      and "list_rep s' 100 ([] @ [(2, 20), (3, 10)])"
      and "map snd ([] @ [(2 :: ptr, 20 :: c_int), (3, 10)]) =
             remove1 10 (map snd ([] @ (1 :: ptr, 10) # [(2, 20), (3, 10)]))"
      and "nodes s' 1 = None"
      and "\<forall>a \<in> fst ` set (butlast ([] :: (ptr \<times> c_int) list)) \<union>
                fst ` set [(2 :: ptr, 20 :: c_int), (3, 10)].
             nodes s' a = nodes ex_aba a"
    by (elim exE conjE) (rule that; assumption)
  then have "LinkedList_delete 10 100 ex_aba = Some (Ret (0, s')) \<and>
      list_rep s' 100 [(2, 20), (3, 10)] \<and> nodes s' 1 = None \<and>
      nodes s' 2 = nodes ex_aba 2 \<and> nodes s' 3 = nodes ex_aba 3"
    by simp
  with run rep first show ?thesis
    by blast
qed

text \<open>
  C2. Append is stable: for any list \<open>xs\<close>, after a successful append the list is \<open>xs\<close>
  followed by the new node, so the new value is last and the order of the elements before it
  is kept. Hence when the values \<open>map snd mvs\<close> are appended in order to a freshly made
  list (every allocation succeeding), the list is \<open>mvs\<close>, and \<^verbatim>\<open>get(i)\<close> returns
  \<^verbatim>\<open>GOT_OK\<close> and stores the \<open>i\<close>-th value in the caller's variable, for every \<open>i\<close>
  below the number of values.
\<close>

theorem append_order_preserved:
  fixes s s0 s1 :: "'a state"
  shows "(list_rep s l xs \<and> m \<noteq> NULL \<and> nodes s m = None \<longrightarrow>
            (\<exists>s'. LinkedList_append m v l s = Some (Ret s') \<and> list_rep s' l (xs @ [(m, v)]))) \<and>
         (LinkedList_make m0 s0 = (l0, s1) \<and> l0 \<noteq> NULL \<and> mallocs_ok s1 (map fst mvs) \<longrightarrow>
            (\<exists>s'. appends mvs l0 s1 = Some (Ret s') \<and> list_rep s' l0 mvs \<and>
               (\<forall>i r old. i < length mvs \<and> r \<noteq> NULL \<and> cells s' r = Some old \<longrightarrow>
                  LinkedList_get (of_nat i) l0 r s' =
                    Some (Ret (GOT_OK, s'\<lparr>cells := (cells s')(r \<mapsto> snd (mvs ! i))\<rparr>)))))"
proof (intro conjI impI)
  assume "list_rep s l xs \<and> m \<noteq> NULL \<and> nodes s m = None"
  then show "\<exists>s'. LinkedList_append m v l s = Some (Ret s') \<and> list_rep s' l (xs @ [(m, v)])"
    using LinkedList_append_ok [of s l xs m v] by blast
next
  assume "LinkedList_make m0 s0 = (l0, s1) \<and> l0 \<noteq> NULL \<and> mallocs_ok s1 (map fst mvs)"
  then have "\<exists>s'. appends mvs l0 s1 = Some (Ret s') \<and> list_rep s' l0 mvs"
    using fresh_appends_rep [of m0 s0 l0 s1 mvs] by blast
  then obtain s' where run: "appends mvs l0 s1 = Some (Ret s')" and rep: "list_rep s' l0 mvs"
    by blast
  have "\<forall>i r old. i < length mvs \<and> r \<noteq> NULL \<and> cells s' r = Some old \<longrightarrow>
      LinkedList_get (of_nat i) l0 r s' =
        Some (Ret (GOT_OK, s'\<lparr>cells := (cells s')(r \<mapsto> snd (mvs ! i))\<rparr>))"
    using LinkedList_get_nth [OF rep] by blast
  with run rep
  show "\<exists>s'. appends mvs l0 s1 = Some (Ret s') \<and> list_rep s' l0 mvs \<and>
      (\<forall>i r old. i < length mvs \<and> r \<noteq> NULL \<and> cells s' r = Some old \<longrightarrow>
         LinkedList_get (of_nat i) l0 r s' =
           Some (Ret (GOT_OK, s'\<lparr>cells := (cells s')(r \<mapsto> snd (mvs ! i))\<rparr>)))"
    by blast
qed

theorem append_order_preserved_witness:
  "(list_rep ex_one 100 [(1, 12)] \<and> (2 :: ptr) \<noteq> NULL \<and> nodes ex_one 2 = None) \<and>
   (\<exists>s'. LinkedList_append 2 20 100 ex_one = Some (Ret s') \<and> list_rep s' 100 [(1, 12), (2, 20)]) \<and>
   (LinkedList_make 100 ex_blank = (100, ex_empty) \<and> (100 :: ptr) \<noteq> NULL \<and>
      mallocs_ok ex_empty (map fst [(1, 10), (2, 20), (3, 30 :: c_int)])) \<and>
   appends [(1, 10), (2, 20), (3, 30)] 100 ex_empty = Some (Ret ex_abc) \<and>
   LinkedList_get 0 100 200 ex_abc = Some (Ret (GOT_OK, ex_abc\<lparr>cells := [200 \<mapsto> 10]\<rparr>)) \<and>
   LinkedList_get 1 100 200 ex_abc = Some (Ret (GOT_OK, ex_abc\<lparr>cells := [200 \<mapsto> 20]\<rparr>)) \<and>
   LinkedList_get 2 100 200 ex_abc = Some (Ret (GOT_OK, ex_abc\<lparr>cells := [200 \<mapsto> 30]\<rparr>))"
proof -
  have one: "list_rep ex_one 100 [(1, 12)] \<and> (2 :: ptr) \<noteq> NULL \<and> nodes ex_one 2 = None"
    by (simp add: list_rep_def ex_one_def)
  have fresh: "LinkedList_make 100 ex_blank = (100, ex_empty) \<and> (100 :: ptr) \<noteq> NULL \<and>
      mallocs_ok ex_empty (map fst [(1, 10), (2, 20), (3, 30 :: c_int)])"
    by (simp add: LinkedList_make_def mallocs_ok_def ex_blank_def ex_empty_def)
  have run: "appends [(1, 10), (2, 20), (3, 30)] 100 ex_empty = Some (Ret ex_abc)"
    by (simp add: LinkedList_append_def LinkedList_new_def deref_def append_loop.simps
        ex_empty_def ex_abc_def fun_upd_twist)
  note inst = append_order_preserved [of ex_one 100 "[(1, 12)]" 2 20 100 ex_blank 100 ex_empty
      "[(1, 10), (2, 20), (3, 30)]"]
  from inst one have snoc:
    "\<exists>s'. LinkedList_append 2 20 100 ex_one = Some (Ret s') \<and> list_rep s' 100 [(1, 12), (2, 20)]"
    by simp
  from inst fresh run
  have get: "\<And>i r old. i < length [(1 :: ptr, 10 :: c_int), (2, 20), (3, 30)] \<and> r \<noteq> NULL \<and>
      cells ex_abc r = Some old \<Longrightarrow>
      LinkedList_get (of_nat i) 100 r ex_abc =
        Some (Ret (GOT_OK,
          ex_abc\<lparr>cells := (cells ex_abc)(r \<mapsto> snd ([(1 :: ptr, 10 :: c_int), (2, 20), (3, 30)] ! i))\<rparr>))"
    by simp
  have cell: "(200 :: ptr) \<noteq> NULL \<and> cells ex_abc 200 = Some 77"
    by (simp add: ex_abc_def)
  have "LinkedList_get (of_nat 0) 100 200 ex_abc =
      Some (Ret (GOT_OK,
        ex_abc\<lparr>cells := (cells ex_abc)(200 \<mapsto> snd ([(1 :: ptr, 10 :: c_int), (2, 20), (3, 30)] ! 0))\<rparr>))"
    using cell by (intro get) simp
  then have g0: "LinkedList_get 0 100 200 ex_abc = Some (Ret (GOT_OK, ex_abc\<lparr>cells := [200 \<mapsto> 10]\<rparr>))"
    by (simp add: ex_abc_def)
  have "LinkedList_get (of_nat 1) 100 200 ex_abc =
      Some (Ret (GOT_OK,
        ex_abc\<lparr>cells := (cells ex_abc)(200 \<mapsto> snd ([(1 :: ptr, 10 :: c_int), (2, 20), (3, 30)] ! 1))\<rparr>))"
    using cell by (intro get) simp
  then have g1: "LinkedList_get 1 100 200 ex_abc = Some (Ret (GOT_OK, ex_abc\<lparr>cells := [200 \<mapsto> 20]\<rparr>))"
    by (simp add: ex_abc_def)
  have "LinkedList_get (of_nat 2) 100 200 ex_abc =
      Some (Ret (GOT_OK,
        ex_abc\<lparr>cells := (cells ex_abc)(200 \<mapsto> snd ([(1 :: ptr, 10 :: c_int), (2, 20), (3, 30)] ! 2))\<rparr>))"
    using cell by (intro get) simp
  then have g2: "LinkedList_get 2 100 200 ex_abc = Some (Ret (GOT_OK, ex_abc\<lparr>cells := [200 \<mapsto> 30]\<rparr>))"
    by (simp add: ex_abc_def)
  from one snoc fresh run g0 g1 g2 show ?thesis
    by blast
qed

text \<open>
  C3. The errors of \<^verbatim>\<open>get\<close> have a fixed precedence. On a list with no element it returns
  \<^verbatim>\<open>GOT_EMPTY_LIST\<close> whatever the index, so also on a freshly made list and for index 0.
  On a list with elements it returns \<^verbatim>\<open>GOT_OUT_OF_BOUNDS\<close> for every index that is at
  least the length. So after \<open>k > 0\<close> successful appends to a freshly made list,
  \<^verbatim>\<open>get(k)\<close> is \<^verbatim>\<open>GOT_OUT_OF_BOUNDS\<close> and \<^verbatim>\<open>get(k-1)\<close> returns \<^verbatim>\<open>GOT_OK\<close> with the last
  value appended. The three codes differ, and no error return changes the memory.
\<close>

theorem get_error_precedence:
  fixes s s0 s1 :: "'a state"
  shows "(list_rep s l [] \<longrightarrow> LinkedList_get index l r s = Some (Ret (GOT_EMPTY_LIST, s))) \<and>
         (list_rep s l xs \<and> xs \<noteq> [] \<and> length xs \<le> unat index \<longrightarrow>
            LinkedList_get index l r s = Some (Ret (GOT_OUT_OF_BOUNDS, s))) \<and>
         (LinkedList_make m0 s0 = (l0, s1) \<and> l0 \<noteq> NULL \<longrightarrow>
            LinkedList_get index l0 r s1 = Some (Ret (GOT_EMPTY_LIST, s1))) \<and>
         (LinkedList_make m0 s0 = (l0, s1) \<and> l0 \<noteq> NULL \<and> mallocs_ok s1 (map fst mvs) \<and>
          mvs \<noteq> [] \<longrightarrow>
            (\<exists>s'. appends mvs l0 s1 = Some (Ret s') \<and>
               LinkedList_get (of_nat (length mvs)) l0 r s' = Some (Ret (GOT_OUT_OF_BOUNDS, s')) \<and>
               (r \<noteq> NULL \<and> cells s' r \<noteq> None \<longrightarrow>
                  LinkedList_get (of_nat (length mvs - 1)) l0 r s' =
                    Some (Ret (GOT_OK, s'\<lparr>cells := (cells s')(r \<mapsto> snd (last mvs))\<rparr>))))) \<and>
         GOT_EMPTY_LIST \<noteq> GOT_OUT_OF_BOUNDS \<and> GOT_OK \<noteq> GOT_EMPTY_LIST \<and>
         GOT_OK \<noteq> GOT_OUT_OF_BOUNDS"
proof (intro conjI impI)
  assume "list_rep s l []"
  then show "LinkedList_get index l r s = Some (Ret (GOT_EMPTY_LIST, s))"
    by (rule LinkedList_get_empty)
next
  assume "list_rep s l xs \<and> xs \<noteq> [] \<and> length xs \<le> unat index"
  then show "LinkedList_get index l r s = Some (Ret (GOT_OUT_OF_BOUNDS, s))"
    using LinkedList_get_out_of_bounds [of s l xs index r] by blast
next
  assume "LinkedList_make m0 s0 = (l0, s1) \<and> l0 \<noteq> NULL"
  then have "list_rep s1 l0 []"
    using fresh_appends_rep [of m0 s0 l0 s1 "[]"] by (simp add: mallocs_ok_def)
  then show "LinkedList_get index l0 r s1 = Some (Ret (GOT_EMPTY_LIST, s1))"
    by (rule LinkedList_get_empty)
next
  assume a: "LinkedList_make m0 s0 = (l0, s1) \<and> l0 \<noteq> NULL \<and> mallocs_ok s1 (map fst mvs) \<and>
      mvs \<noteq> []"
  then obtain s' where run: "appends mvs l0 s1 = Some (Ret s')" and rep: "list_rep s' l0 mvs"
    using fresh_appends_rep [of m0 s0 l0 s1 mvs] by blast
  from a have ne: "mvs \<noteq> []"
    by simp
  from rep obtain head where "chain (nodes s') head mvs"
    by (rule list_repE)
  then have "unat (of_nat (length mvs) :: size_t) = length mvs"
    by (rule unat_of_nat_length)
  then have oob: "LinkedList_get (of_nat (length mvs)) l0 r s' = Some (Ret (GOT_OUT_OF_BOUNDS, s'))"
    using LinkedList_get_out_of_bounds [OF rep ne, of "of_nat (length mvs)" r] by simp
  have ok: "r \<noteq> NULL \<and> cells s' r \<noteq> None \<longrightarrow>
      LinkedList_get (of_nat (length mvs - 1)) l0 r s' =
        Some (Ret (GOT_OK, s'\<lparr>cells := (cells s')(r \<mapsto> snd (last mvs))\<rparr>))"
  proof
    assume "r \<noteq> NULL \<and> cells s' r \<noteq> None"
    then obtain old where r: "r \<noteq> NULL" "cells s' r = Some old"
      by auto
    have "length mvs - 1 < length mvs"
      using ne by simp
    from LinkedList_get_nth [OF rep this r]
    show "LinkedList_get (of_nat (length mvs - 1)) l0 r s' =
        Some (Ret (GOT_OK, s'\<lparr>cells := (cells s')(r \<mapsto> snd (last mvs))\<rparr>))"
      using ne by (simp add: last_conv_nth)
  qed
  from run oob ok
  show "\<exists>s'. appends mvs l0 s1 = Some (Ret s') \<and>
      LinkedList_get (of_nat (length mvs)) l0 r s' = Some (Ret (GOT_OUT_OF_BOUNDS, s')) \<and>
      (r \<noteq> NULL \<and> cells s' r \<noteq> None \<longrightarrow>
         LinkedList_get (of_nat (length mvs - 1)) l0 r s' =
           Some (Ret (GOT_OK, s'\<lparr>cells := (cells s')(r \<mapsto> snd (last mvs))\<rparr>)))"
    by blast
qed (simp_all add: GOT_OK_def GOT_EMPTY_LIST_def GOT_OUT_OF_BOUNDS_def)

theorem get_error_precedence_witness:
  "list_rep ex_empty 100 [] \<and>
   LinkedList_get 0 100 200 ex_empty = Some (Ret (GOT_EMPTY_LIST, ex_empty)) \<and>
   LinkedList_get 3 100 200 ex_empty = Some (Ret (GOT_EMPTY_LIST, ex_empty)) \<and>
   (list_rep ex_abc 100 [(1, 10), (2, 20), (3, 30)] \<and> [(1 :: ptr, 10 :: c_int), (2, 20), (3, 30)] \<noteq> [] \<and>
      length [(1 :: ptr, 10 :: c_int), (2, 20), (3, 30)] \<le> unat (3 :: size_t)) \<and>
   LinkedList_get 3 100 200 ex_abc = Some (Ret (GOT_OUT_OF_BOUNDS, ex_abc)) \<and>
   (LinkedList_make 100 ex_blank = (100, ex_empty) \<and> (100 :: ptr) \<noteq> NULL \<and>
      mallocs_ok ex_empty (map fst [(1, 10), (2, 20), (3, 30 :: c_int)]) \<and>
      [(1 :: ptr, 10 :: c_int), (2, 20), (3, 30)] \<noteq> []) \<and>
   appends [(1, 10), (2, 20), (3, 30)] 100 ex_empty = Some (Ret ex_abc) \<and>
   ((200 :: ptr) \<noteq> NULL \<and> cells ex_abc 200 \<noteq> None) \<and>
   LinkedList_get 2 100 200 ex_abc = Some (Ret (GOT_OK, ex_abc\<lparr>cells := [200 \<mapsto> 30]\<rparr>))"
proof -
  have empty: "list_rep ex_empty 100 []"
    by (simp add: list_rep_def ex_empty_def)
  have abc: "list_rep ex_abc 100 [(1, 10), (2, 20), (3, 30)] \<and>
      [(1 :: ptr, 10 :: c_int), (2, 20), (3, 30)] \<noteq> [] \<and>
      length [(1 :: ptr, 10 :: c_int), (2, 20), (3, 30)] \<le> unat (3 :: size_t)"
    by (simp add: list_rep_def ex_abc_def)
  have fresh: "LinkedList_make 100 ex_blank = (100, ex_empty) \<and> (100 :: ptr) \<noteq> NULL \<and>
      mallocs_ok ex_empty (map fst [(1, 10), (2, 20), (3, 30 :: c_int)]) \<and>
      [(1 :: ptr, 10 :: c_int), (2, 20), (3, 30)] \<noteq> []"
    by (simp add: LinkedList_make_def mallocs_ok_def ex_blank_def ex_empty_def)
  have run: "appends [(1, 10), (2, 20), (3, 30)] 100 ex_empty = Some (Ret ex_abc)"
    by (simp add: LinkedList_append_def LinkedList_new_def deref_def append_loop.simps
        ex_empty_def ex_abc_def fun_upd_twist)
  have cell: "(200 :: ptr) \<noteq> NULL \<and> cells ex_abc 200 \<noteq> None"
    by (simp add: ex_abc_def)
  note e = get_error_precedence [of ex_empty 100 0 200 "[]" 0 ex_blank 0 ex_blank "[]"]
  from e empty have g0: "LinkedList_get 0 100 200 ex_empty = Some (Ret (GOT_EMPTY_LIST, ex_empty))"
    by blast
  note i = get_error_precedence [of ex_abc 100 3 200 "[(1, 10), (2, 20), (3, 30)]"
      100 ex_blank 100 ex_empty "[(1, 10), (2, 20), (3, 30)]"]
  from i abc have g3: "LinkedList_get 3 100 200 ex_abc = Some (Ret (GOT_OUT_OF_BOUNDS, ex_abc))"
    by blast
  from i [THEN conjunct2, THEN conjunct2, THEN conjunct1] fresh
  have g_fresh: "LinkedList_get 3 100 200 ex_empty = Some (Ret (GOT_EMPTY_LIST, ex_empty))"
    by simp
  from i fresh run cell
  have "LinkedList_get (of_nat (length [(1 :: ptr, 10 :: c_int), (2, 20), (3, 30)] - 1)) 100 200 ex_abc =
      Some (Ret (GOT_OK,
        ex_abc\<lparr>cells := (cells ex_abc)(200 \<mapsto> snd (last [(1 :: ptr, 10 :: c_int), (2, 20), (3, 30)]))\<rparr>))"
    by simp
  then have g2: "LinkedList_get 2 100 200 ex_abc = Some (Ret (GOT_OK, ex_abc\<lparr>cells := [200 \<mapsto> 30]\<rparr>))"
    by (simp add: ex_abc_def)
  from empty g0 g_fresh abc g3 fresh run cell g2 show ?thesis
    by blast
qed

text \<open>
  C10. \<^verbatim>\<open>get\<close> writes through \<open>result\<close> only when it returns \<^verbatim>\<open>GOT_OK\<close>. Whenever it
  returns another status, which is then \<^verbatim>\<open>GOT_EMPTY_LIST\<close> or \<^verbatim>\<open>GOT_OUT_OF_BOUNDS\<close>, the
  memory after the call is the memory before it, so the caller's variable holds what it held.
  A \<^verbatim>\<open>GOT_OK\<close> return changes the memory at \<open>result\<close> and nowhere else. On a list that is
  empty or shorter than the index asks, \<^verbatim>\<open>get\<close> does return, with such an error status.
\<close>

theorem get_error_no_write:
  fixes s s' :: "'a state"
  shows "(LinkedList_get index l r s = Some (Ret (st, s')) \<and> st \<noteq> GOT_OK \<longrightarrow>
            s' = s \<and> cells s' r = cells s r \<and> (st = GOT_EMPTY_LIST \<or> st = GOT_OUT_OF_BOUNDS)) \<and>
         (LinkedList_get index l r s = Some (Ret (GOT_OK, s')) \<longrightarrow>
            (\<exists>v. s' = s\<lparr>cells := (cells s)(r \<mapsto> v)\<rparr>)) \<and>
         (list_rep s l xs \<and> (xs = [] \<or> length xs \<le> unat index) \<longrightarrow>
            (\<exists>e. LinkedList_get index l r s = Some (Ret (e, s)) \<and> e \<noteq> GOT_OK))"
proof -
  have err: "LinkedList_get index l r s = Some (Ret (st, s')) \<and> st \<noteq> GOT_OK \<longrightarrow>
      s' = s \<and> cells s' r = cells s r \<and> (st = GOT_EMPTY_LIST \<or> st = GOT_OUT_OF_BOUNDS)"
    by (auto simp: LinkedList_get_def split: outcome.splits option.splits if_splits)
  have ok: "LinkedList_get index l r s = Some (Ret (GOT_OK, s')) \<longrightarrow>
      (\<exists>v. s' = s\<lparr>cells := (cells s)(r \<mapsto> v)\<rparr>)"
    by (auto simp: LinkedList_get_def GOT_OK_def GOT_EMPTY_LIST_def GOT_OUT_OF_BOUNDS_def
        split: outcome.splits option.splits if_splits)
  have returns: "list_rep s l xs \<and> (xs = [] \<or> length xs \<le> unat index) \<longrightarrow>
      (\<exists>e. LinkedList_get index l r s = Some (Ret (e, s)) \<and> e \<noteq> GOT_OK)"
  proof
    assume a: "list_rep s l xs \<and> (xs = [] \<or> length xs \<le> unat index)"
    show "\<exists>e. LinkedList_get index l r s = Some (Ret (e, s)) \<and> e \<noteq> GOT_OK"
    proof (cases "xs = []")
      case True
      with a have "LinkedList_get index l r s = Some (Ret (GOT_EMPTY_LIST, s))"
        by (auto intro: LinkedList_get_empty)
      then show ?thesis
        by (simp add: GOT_OK_def GOT_EMPTY_LIST_def)
    next
      case False
      with a have "LinkedList_get index l r s = Some (Ret (GOT_OUT_OF_BOUNDS, s))"
        by (auto intro: LinkedList_get_out_of_bounds)
      then show ?thesis
        by (simp add: GOT_OK_def GOT_OUT_OF_BOUNDS_def)
    qed
  qed
  show ?thesis
    by (intro conjI err ok returns)
qed

theorem get_error_no_write_witness:
  "(LinkedList_get 0 100 200 ex_empty = Some (Ret (GOT_EMPTY_LIST, ex_empty)) \<and>
      GOT_EMPTY_LIST \<noteq> GOT_OK) \<and>
   cells ex_empty 200 = Some 77 \<and>
   (LinkedList_get 3 100 200 ex_abc = Some (Ret (GOT_OUT_OF_BOUNDS, ex_abc)) \<and>
      GOT_OUT_OF_BOUNDS \<noteq> GOT_OK) \<and>
   cells ex_abc 200 = Some 77 \<and>
   LinkedList_get 1 100 200 ex_abc = Some (Ret (GOT_OK, ex_abc\<lparr>cells := [200 \<mapsto> 20]\<rparr>)) \<and>
   (\<exists>v. ex_abc\<lparr>cells := [200 \<mapsto> 20]\<rparr> = ex_abc\<lparr>cells := (cells ex_abc)(200 \<mapsto> v)\<rparr>) \<and>
   (list_rep ex_abc 100 [(1, 10), (2, 20), (3, 30)] \<and>
      ([(1 :: ptr, 10 :: c_int), (2, 20), (3, 30)] = [] \<or>
       length [(1 :: ptr, 10 :: c_int), (2, 20), (3, 30)] \<le> unat (3 :: size_t)))"
proof -
  have e: "LinkedList_get 0 100 200 ex_empty = Some (Ret (GOT_EMPTY_LIST, ex_empty)) \<and>
      GOT_EMPTY_LIST \<noteq> GOT_OK"
    by (simp add: LinkedList_get_def LinkedList_len_def len_loop.simps deref_def ex_empty_def
        GOT_OK_def GOT_EMPTY_LIST_def)
  have o: "LinkedList_get 3 100 200 ex_abc = Some (Ret (GOT_OUT_OF_BOUNDS, ex_abc)) \<and>
      GOT_OUT_OF_BOUNDS \<noteq> GOT_OK"
    by (simp add: LinkedList_get_def LinkedList_len_def len_loop.simps deref_def ex_abc_def
        GOT_OK_def GOT_OUT_OF_BOUNDS_def)
  have k: "LinkedList_get 1 100 200 ex_abc = Some (Ret (GOT_OK, ex_abc\<lparr>cells := [200 \<mapsto> 20]\<rparr>))"
    by (simp add: LinkedList_get_def LinkedList_len_def len_loop.simps deref_def ex_abc_def
        get_loop.simps word_le_nat_alt)
  have abc: "list_rep ex_abc 100 [(1, 10), (2, 20), (3, 30)] \<and>
      ([(1 :: ptr, 10 :: c_int), (2, 20), (3, 30)] = [] \<or>
       length [(1 :: ptr, 10 :: c_int), (2, 20), (3, 30)] \<le> unat (3 :: size_t))"
    by (simp add: list_rep_def ex_abc_def)
  from get_error_no_write [of 0 100 200 ex_empty GOT_EMPTY_LIST ex_empty] e
  have c1: "cells ex_empty 200 = Some 77"
    by (simp add: ex_empty_def)
  from get_error_no_write [of 3 100 200 ex_abc GOT_OUT_OF_BOUNDS ex_abc "[(1, 10), (2, 20), (3, 30)]"] o abc
  have c2: "cells ex_abc 200 = Some 77"
    by (simp add: ex_abc_def)
  from get_error_no_write [of 1 100 200 ex_abc GOT_OK "ex_abc\<lparr>cells := [200 \<mapsto> 20]\<rparr>"] k
  have c3: "\<exists>v. ex_abc\<lparr>cells := [200 \<mapsto> 20]\<rparr> = ex_abc\<lparr>cells := (cells ex_abc)(200 \<mapsto> v)\<rparr>"
    by blast
  from e c1 o c2 k c3 abc show ?thesis
    by blast
qed

text \<open>
  C7, as the code has it. \<^verbatim>\<open>LinkedList_T_new\<close> reports a failed allocation by returning
  \<open>NULL\<close>, and \<^verbatim>\<open>LinkedList_T_append\<close>, whose return type is \<^verbatim>\<open>void\<close>, stores that
  \<open>NULL\<close> where \<open>NULL\<close> already was and returns normally: the memory after the call is
  the memory before it, so no partial link is attached and nothing tells the caller of the
  failure. With a successful allocation append returns with the new node linked last.
\<close>

theorem append_alloc_failure_silent:
  fixes s :: "'a state"
  shows "LinkedList_new NULL v s = (NULL, s) \<and>
         (list_rep s l xs \<longrightarrow> LinkedList_append NULL v l s = Some (Ret s)) \<and>
         (list_rep s l xs \<and> m \<noteq> NULL \<and> nodes s m = None \<longrightarrow>
            (\<exists>s'. LinkedList_append m v l s = Some (Ret s') \<and> list_rep s' l (xs @ [(m, v)]) \<and>
               dom (nodes s') = insert m (dom (nodes s))))"
proof -
  have new: "LinkedList_new NULL v s = (NULL, s)"
    by (simp add: LinkedList_new_def)
  have fail: "list_rep s l xs \<longrightarrow> LinkedList_append NULL v l s = Some (Ret s)"
    by (auto intro: LinkedList_append_fail)
  have ok: "list_rep s l xs \<and> m \<noteq> NULL \<and> nodes s m = None \<longrightarrow>
      (\<exists>s'. LinkedList_append m v l s = Some (Ret s') \<and> list_rep s' l (xs @ [(m, v)]) \<and>
         dom (nodes s') = insert m (dom (nodes s)))"
    using LinkedList_append_ok [of s l xs m v] by blast
  show ?thesis
    by (intro conjI new fail ok)
qed

theorem append_alloc_failure_silent_witness:
  "list_rep ex_abc 100 [(1, 10), (2, 20), (3, 30)] \<and>
   LinkedList_append NULL 40 100 ex_abc = Some (Ret ex_abc) \<and>
   (list_rep ex_abc 100 [(1, 10), (2, 20), (3, 30)] \<and> (4 :: ptr) \<noteq> NULL \<and> nodes ex_abc 4 = None) \<and>
   (\<exists>s'. LinkedList_append 4 40 100 ex_abc = Some (Ret s') \<and>
      list_rep s' 100 [(1, 10), (2, 20), (3, 30), (4, 40)]) \<and>
   list_rep ex_empty 100 [] \<and>
   LinkedList_append NULL 40 100 ex_empty = Some (Ret ex_empty)"
proof -
  have abc: "list_rep ex_abc 100 [(1, 10), (2, 20), (3, 30)]"
    by (simp add: list_rep_def ex_abc_def)
  have fresh: "list_rep ex_abc 100 [(1, 10), (2, 20), (3, 30)] \<and> (4 :: ptr) \<noteq> NULL \<and>
      nodes ex_abc 4 = None"
    by (simp add: list_rep_def ex_abc_def)
  have empty: "list_rep ex_empty 100 []"
    by (simp add: list_rep_def ex_empty_def)
  note i = append_alloc_failure_silent [of 40 ex_abc 100 "[(1, 10), (2, 20), (3, 30)]" 4]
  from i abc have f1: "LinkedList_append NULL 40 100 ex_abc = Some (Ret ex_abc)"
    by blast
  from i fresh have ok: "\<exists>s'. LinkedList_append 4 40 100 ex_abc = Some (Ret s') \<and>
      list_rep s' 100 [(1, 10), (2, 20), (3, 30), (4, 40)]"
    by auto
  from append_alloc_failure_silent [of 40 ex_empty 100 "[]" 4] empty
  have f2: "LinkedList_append NULL 40 100 ex_empty = Some (Ret ex_empty)"
    by blast
  from abc f1 fresh ok empty f2 show ?thesis
    by blast
qed

text \<open>
  The claim C7 as the specification states it asks for an \<open>AllocationFailure\<close> signalled to
  the caller. Here the allocation fails on the list of three nodes: \<^verbatim>\<open>LinkedList_T_new\<close>
  returns \<open>NULL\<close>, and the call of append returns normally. Its outcome is \<open>Ret\<close>, not a
  fault, it carries no status, and the memory it hands back is the one it was given.
\<close>

theorem append_signals_failure_counterexample:
  "LinkedList_new NULL 40 ex_abc = (NULL, ex_abc) \<and>
   LinkedList_append NULL 40 100 ex_abc = Some (Ret ex_abc)"
  by (simp add: LinkedList_append_def LinkedList_new_def append_loop.simps deref_def ex_abc_def
      map_upd_triv)

text \<open>
  C8. In \<^verbatim>\<open>main.c\<close>, when both allocations succeed, \<^verbatim>\<open>get(0)\<close> after \<^verbatim>\<open>make\<close> and
  \<^verbatim>\<open>append(12)\<close> returns \<^verbatim>\<open>GOT_OK\<close>, which is 0, and stores 12 in \<^verbatim>\<open>fst_elem\<close>, whatever
  that variable held; the program prints 0 and 12 and frees the list without a fault.
\<close>

theorem main_scenario:
  fixes s :: "c_int state"
  assumes "m1 \<noteq> NULL" and "m2 \<noteq> NULL" and "fst_elem \<noteq> NULL" and "cells s fst_elem = Some x"
  shows "\<exists>ll s1 s2 s3. LinkedList_make m1 s = (ll, s1) \<and>
           LinkedList_append m2 12 ll s1 = Some (Ret s2) \<and>
           LinkedList_get 0 ll fst_elem s2 = Some (Ret (GOT_OK, s3)) \<and> GOT_OK = 0 \<and>
           cells s3 fst_elem = Some 12 \<and>
           main m1 m2 fst_elem s = Some (Ret (0, 12))"
proof -
  let ?s1 = "s\<lparr>lists := (lists s)(m1 \<mapsto> NULL)\<rparr>"
  let ?s2 = "s\<lparr>nodes := (nodes s)(m2 \<mapsto> \<lparr>value = 12, next = NULL\<rparr>), lists := (lists s)(m1 \<mapsto> m2)\<rparr>"
  let ?s3 = "?s2\<lparr>cells := (cells s)(fst_elem \<mapsto> 12)\<rparr>"
  have mk: "LinkedList_make m1 s = (m1, ?s1)"
    using assms(1) by (simp add: LinkedList_make_def)
  have app: "LinkedList_append m2 12 m1 ?s1 = Some (Ret ?s2)"
    using assms(1,2) by (simp add: LinkedList_append_def LinkedList_new_def deref_def)
  have rep: "list_rep ?s2 m1 [(m2, 12)]"
    using assms(1,2) by (simp add: list_rep_def)
  have cell: "cells ?s2 fst_elem = Some x"
    using assms(4) by simp
  have "LinkedList_get (of_nat 0) m1 fst_elem ?s2 =
      Some (Ret (GOT_OK, ?s2\<lparr>cells := (cells ?s2)(fst_elem \<mapsto> snd ([(m2, 12 :: c_int)] ! 0))\<rparr>))"
    using rep _ assms(3) cell by (rule LinkedList_get_nth) simp
  then have get: "LinkedList_get 0 m1 fst_elem ?s2 = Some (Ret (GOT_OK, ?s3))"
    by simp
  have rep3: "list_rep ?s3 m1 [(m2, 12)]"
    using assms(1,2) by (simp add: list_rep_def)
  have "\<exists>s4. LinkedList_free m1 ?s3 = Some (Ret s4)"
    using LinkedList_free_rep [OF rep3] by simp
  then obtain s4 where free: "LinkedList_free m1 ?s3 = Some (Ret s4)"
    by blast
  have "main m1 m2 fst_elem s = Some (Ret (GOT_OK, sint (12 :: c_int)))"
    unfolding main_def mk using app get free assms(3) by (simp add: deref_def)
  then have run: "main m1 m2 fst_elem s = Some (Ret (0, 12))"
    by (simp add: GOT_OK_def)
  have "cells ?s3 fst_elem = Some 12"
    by simp
  with mk app get run show ?thesis
    unfolding GOT_OK_def by blast
qed

theorem main_scenario_witness:
  "(100 :: ptr) \<noteq> NULL \<and> (1 :: ptr) \<noteq> NULL \<and> (200 :: ptr) \<noteq> NULL \<and> cells ex_blank 200 = Some 77 \<and>
   LinkedList_make 100 ex_blank = (100, ex_empty) \<and>
   LinkedList_append 1 12 100 ex_empty = Some (Ret ex_one) \<and>
   LinkedList_get 0 100 200 ex_one = Some (Ret (GOT_OK, ex_one\<lparr>cells := [200 \<mapsto> 12]\<rparr>)) \<and>
   main 100 1 200 ex_blank = Some (Ret (0, 12))"
proof -
  have h: "(100 :: ptr) \<noteq> NULL" "(1 :: ptr) \<noteq> NULL" "(200 :: ptr) \<noteq> NULL"
      "cells ex_blank 200 = Some 77"
    by (simp_all add: ex_blank_def)
  have mk: "LinkedList_make 100 ex_blank = (100, ex_empty)"
    by (simp add: LinkedList_make_def ex_blank_def ex_empty_def)
  have app: "LinkedList_append 1 12 100 ex_empty = Some (Ret ex_one)"
    by (simp add: LinkedList_append_def LinkedList_new_def deref_def ex_empty_def ex_one_def)
  from main_scenario [OF h] obtain ll s1 s2 s3
    where "LinkedList_make 100 ex_blank = (ll, s1)"
      and "LinkedList_append 1 12 ll s1 = Some (Ret s2)"
      and "LinkedList_get 0 ll 200 s2 = Some (Ret (GOT_OK, s3))"
      and "cells s3 200 = Some 12"
      and run: "main 100 1 200 ex_blank = Some (Ret (0, 12))"
    by blast
  have get: "LinkedList_get 0 100 200 ex_one = Some (Ret (GOT_OK, ex_one\<lparr>cells := [200 \<mapsto> 12]\<rparr>))"
    by (simp add: LinkedList_get_def LinkedList_len_def len_loop.simps deref_def get_loop.simps
        ex_one_def word_le_nat_alt)
  from h mk app get run show ?thesis
    by blast
qed

text \<open>
  C9. The invariant \<open>wf_list\<close> (the chain from \<open>head\<close> reaches \<open>NULL\<close>, no node occurs
  twice on it, and \<^verbatim>\<open>len\<close> reports the number of its nodes) is established by \<^verbatim>\<open>make\<close> and
  kept by every operation on the list: by \<^verbatim>\<open>append\<close> whether the allocation succeeds or
  fails, by \<^verbatim>\<open>delete\<close> whether the value is found or not, by \<^verbatim>\<open>len\<close>, which returns a
  number and has no effect, and by \<^verbatim>\<open>get\<close>, which either faults on an invalid \<open>result\<close>
  pointer or returns with the list as it was. On such a list every operation terminates.
  \<^verbatim>\<open>free\<close> ends the life of the list: it returns without a fault and leaves neither the
  list struct nor any of its nodes live.
\<close>

theorem operations_preserve_invariant:
  fixes s s0 :: "'a state"
  assumes "wf_list s l xs"
  shows "(m0 \<noteq> NULL \<longrightarrow>
            wf_list (snd (LinkedList_make m0 s0)) (fst (LinkedList_make m0 s0)) []) \<and>
         (m \<noteq> NULL \<and> nodes s m = None \<longrightarrow>
            (\<exists>s'. LinkedList_append m v l s = Some (Ret s') \<and> wf_list s' l (xs @ [(m, v)]))) \<and>
         LinkedList_append NULL v l s = Some (Ret s) \<and>
         (xs = pre @ (c, v) # post \<and> v \<notin> snd ` set pre \<longrightarrow>
            (\<exists>s'. LinkedList_delete v l s = Some (Ret (0, s')) \<and> wf_list s' l (pre @ post))) \<and>
         (v \<notin> snd ` set xs \<longrightarrow> LinkedList_delete v l s = Some (Ret (1, s))) \<and>
         LinkedList_len l s = Some (Ret (of_nat (length xs))) \<and>
         (LinkedList_get index l r s = Some Fault \<or>
            (\<exists>st s'. LinkedList_get index l r s = Some (Ret (st, s')) \<and> wf_list s' l xs)) \<and>
         (\<exists>s'. LinkedList_free l s = Some (Ret s') \<and> lists s' l = None \<and>
            (\<forall>a \<in> fst ` set xs. nodes s' a = None))"
proof -
  from assms have rep: "list_rep s l xs"
    by (simp add: wf_list_def)
  have make: "m0 \<noteq> NULL \<longrightarrow>
      wf_list (snd (LinkedList_make m0 s0)) (fst (LinkedList_make m0 s0)) []"
  proof
    assume "m0 \<noteq> NULL"
    then have "list_rep (snd (LinkedList_make m0 s0)) (fst (LinkedList_make m0 s0)) []"
      using LinkedList_make_rep [of m0 s0] by simp
    then show "wf_list (snd (LinkedList_make m0 s0)) (fst (LinkedList_make m0 s0)) []"
      by (rule list_rep_wf)
  qed
  have app: "m \<noteq> NULL \<and> nodes s m = None \<longrightarrow>
      (\<exists>s'. LinkedList_append m v l s = Some (Ret s') \<and> wf_list s' l (xs @ [(m, v)]))"
  proof
    assume "m \<noteq> NULL \<and> nodes s m = None"
    then obtain s' where "LinkedList_append m v l s = Some (Ret s')"
        and "list_rep s' l (xs @ [(m, v)])"
      using LinkedList_append_ok [OF rep, of m v] by blast
    then show "\<exists>s'. LinkedList_append m v l s = Some (Ret s') \<and> wf_list s' l (xs @ [(m, v)])"
      using list_rep_wf by blast
  qed
  have app_fail: "LinkedList_append NULL v l s = Some (Ret s)"
    using rep by (rule LinkedList_append_fail)
  have del: "xs = pre @ (c, v) # post \<and> v \<notin> snd ` set pre \<longrightarrow>
      (\<exists>s'. LinkedList_delete v l s = Some (Ret (0, s')) \<and> wf_list s' l (pre @ post))"
  proof
    assume a: "xs = pre @ (c, v) # post \<and> v \<notin> snd ` set pre"
    with rep have "list_rep s l (pre @ (c, v) # post)" "v \<notin> snd ` set pre"
      by simp_all
    from LinkedList_delete_first [OF this] obtain s'
      where "LinkedList_delete v l s = Some (Ret (0, s'))" "list_rep s' l (pre @ post)"
      by blast
    then show "\<exists>s'. LinkedList_delete v l s = Some (Ret (0, s')) \<and> wf_list s' l (pre @ post)"
      using list_rep_wf by blast
  qed
  have del_miss: "v \<notin> snd ` set xs \<longrightarrow> LinkedList_delete v l s = Some (Ret (1, s))"
    using rep by (auto intro: LinkedList_delete_missing)
  have len: "LinkedList_len l s = Some (Ret (of_nat (length xs)))"
    using rep by (rule LinkedList_len_rep)
  have get: "LinkedList_get index l r s = Some Fault \<or>
      (\<exists>st s'. LinkedList_get index l r s = Some (Ret (st, s')) \<and> wf_list s' l xs)"
  proof (cases "xs = [] \<or> length xs \<le> unat index")
    case True
    then have "LinkedList_get index l r s = Some (Ret (GOT_EMPTY_LIST, s)) \<or>
        LinkedList_get index l r s = Some (Ret (GOT_OUT_OF_BOUNDS, s))"
      using LinkedList_get_empty [of s l index r] LinkedList_get_out_of_bounds [of s l xs index r] rep
      by blast
    with assms show ?thesis
      by blast
  next
    case False
    then have less: "unat index < length xs"
      by simp
    show ?thesis
    proof (cases "r \<noteq> NULL \<and> cells s r \<noteq> None")
      case True
      then obtain old where "r \<noteq> NULL" "cells s r = Some old"
        by auto
      from LinkedList_get_ok [OF rep less this]
      have "LinkedList_get index l r s =
          Some (Ret (GOT_OK, s\<lparr>cells := (cells s)(r \<mapsto> snd (xs ! unat index))\<rparr>))" .
      moreover have "wf_list (s\<lparr>cells := (cells s)(r \<mapsto> snd (xs ! unat index))\<rparr>) l xs"
        using rep by (intro list_rep_wf) (simp add: list_rep_cells_upd)
      ultimately show ?thesis
        by blast
    next
      case False
      then have bad: "deref (cells s) r = Fault"
        by (auto simp: deref_def)
      from rep obtain head where h: "l \<noteq> NULL" "lists s l = Some head" "chain (nodes s) head xs"
        by (rule list_repE)
      have ne: "xs \<noteq> []"
        using less by auto
      have loop: "get_loop s 0 index head = Ret (fst (xs ! (unat index - unat (0 :: size_t))))"
        using h(3) by (rule get_loop_chain) (simp_all add: less)
      from chain_nth_live [OF h(3) less] obtain n
        where n: "fst (xs ! unat index) \<noteq> NULL" "nodes s (fst (xs ! unat index)) = Some n"
        by blast
      have "LinkedList_get index l r s = Some Fault"
        using h(1,2) LinkedList_len_rep [OF rep] ne less loop n bad
        by (simp add: LinkedList_get_def deref_live of_nat_length_eq_0 [OF h(3)]
            of_nat_length_le [OF h(3)])
      then show ?thesis
        by simp
    qed
  qed
  have free: "\<exists>s'. LinkedList_free l s = Some (Ret s') \<and> lists s' l = None \<and>
      (\<forall>a \<in> fst ` set xs. nodes s' a = None)"
    using LinkedList_free_rep [OF rep] by simp
  show ?thesis
    by (intro conjI make app app_fail del del_miss len get free)
qed

theorem operations_preserve_invariant_witness:
  "wf_list ex_abc 100 [(1, 10), (2, 20), (3, 30)] \<and>
   (100 :: ptr) \<noteq> NULL \<and>
   wf_list (snd (LinkedList_make 100 ex_blank)) (fst (LinkedList_make 100 ex_blank)) [] \<and>
   ((4 :: ptr) \<noteq> NULL \<and> nodes ex_abc 4 = None) \<and>
   (\<exists>s'. LinkedList_append 4 20 100 ex_abc = Some (Ret s') \<and>
      wf_list s' 100 [(1, 10), (2, 20), (3, 30), (4, 20)]) \<and>
   ([(1, 10), (2, 20), (3, 30)] = [(1 :: ptr, 10 :: c_int)] @ (2, 20) # [(3, 30)] \<and>
      (20 :: c_int) \<notin> snd ` set [(1 :: ptr, 10)]) \<and>
   (\<exists>s'. LinkedList_delete 20 100 ex_abc = Some (Ret (0, s')) \<and> wf_list s' 100 [(1, 10), (3, 30)]) \<and>
   (40 :: c_int) \<notin> snd ` set [(1 :: ptr, 10), (2, 20), (3, 30)] \<and>
   LinkedList_delete 40 100 ex_abc = Some (Ret (1, ex_abc)) \<and>
   LinkedList_len 100 ex_abc = Some (Ret 3) \<and>
   (\<exists>s'. LinkedList_free 100 ex_abc = Some (Ret s') \<and> lists s' 100 = None \<and>
      nodes s' 1 = None \<and> nodes s' 2 = None \<and> nodes s' 3 = None)"
proof -
  have inv: "wf_list ex_abc 100 [(1, 10), (2, 20), (3, 30)]"
    by (simp add: wf_list_def list_rep_def LinkedList_len_def len_loop.simps deref_def ex_abc_def)
  have h100: "(100 :: ptr) \<noteq> NULL"
    by simp
  have fresh: "(4 :: ptr) \<noteq> NULL \<and> nodes ex_abc 4 = None"
    by (simp add: ex_abc_def)
  have parts: "[(1, 10), (2, 20), (3, 30)] = [(1 :: ptr, 10 :: c_int)] @ (2, 20) # [(3, 30)] \<and>
      (20 :: c_int) \<notin> snd ` set [(1 :: ptr, 10)]"
    by simp
  have absent: "(40 :: c_int) \<notin> snd ` set [(1 :: ptr, 10), (2, 20), (3, 30)]"
    by simp
  note i = operations_preserve_invariant [OF inv, of 100 ex_blank 4 20 "[(1, 10)]" 2 "[(3, 30)]"]
  have mk: "wf_list (snd (LinkedList_make 100 ex_blank)) (fst (LinkedList_make 100 ex_blank)) []"
    using i [THEN conjunct1] h100 by (rule mp)
  have "\<exists>s'. LinkedList_append 4 20 100 ex_abc = Some (Ret s') \<and>
      wf_list s' 100 ([(1, 10), (2, 20), (3, 30)] @ [(4, 20)])"
    using i [THEN conjunct2, THEN conjunct1] fresh by (rule mp)
  then have app: "\<exists>s'. LinkedList_append 4 20 100 ex_abc = Some (Ret s') \<and>
      wf_list s' 100 [(1, 10), (2, 20), (3, 30), (4, 20)]"
    by simp
  have "\<exists>s'. LinkedList_delete 20 100 ex_abc = Some (Ret (0, s')) \<and>
      wf_list s' 100 ([(1, 10)] @ [(3, 30)])"
    using i [THEN conjunct2, THEN conjunct2, THEN conjunct2, THEN conjunct1] parts by (rule mp)
  then have del: "\<exists>s'. LinkedList_delete 20 100 ex_abc = Some (Ret (0, s')) \<and>
      wf_list s' 100 [(1, 10), (3, 30)]"
    by simp
  have "LinkedList_len 100 ex_abc = Some (Ret (of_nat (length [(1 :: ptr, 10 :: c_int), (2, 20), (3, 30)])))"
    using i [THEN conjunct2, THEN conjunct2, THEN conjunct2, THEN conjunct2, THEN conjunct2,
        THEN conjunct1] .
  then have len: "LinkedList_len 100 ex_abc = Some (Ret 3)"
    by simp
  have "\<exists>s'. LinkedList_free 100 ex_abc = Some (Ret s') \<and> lists s' 100 = None \<and>
      (\<forall>a \<in> fst ` set [(1 :: ptr, 10 :: c_int), (2, 20), (3, 30)]. nodes s' a = None)"
    using i [THEN conjunct2, THEN conjunct2, THEN conjunct2, THEN conjunct2, THEN conjunct2,
        THEN conjunct2, THEN conjunct2] .
  then have free: "\<exists>s'. LinkedList_free 100 ex_abc = Some (Ret s') \<and> lists s' 100 = None \<and>
      nodes s' 1 = None \<and> nodes s' 2 = None \<and> nodes s' 3 = None"
    by simp
  have miss: "LinkedList_delete 40 100 ex_abc = Some (Ret (1, ex_abc))"
    using operations_preserve_invariant [OF inv, of 100 ex_blank 4 40 "[]" 0 "[]",
        THEN conjunct2, THEN conjunct2, THEN conjunct2, THEN conjunct2, THEN conjunct1] absent
    by (rule mp)
  show ?thesis
    by (intro conjI inv h100 mk fresh [THEN conjunct1] fresh [THEN conjunct2] app
        parts [THEN conjunct1] parts [THEN conjunct2] del absent miss len free)
qed

end
